theory Spec2Isabelle
  imports Complex_Main "HOL-Library.Word"
begin

unbundle bit_operations_syntax

section \<open>JavaScript numbers\<close>

text \<open>
  A \<open>number\<close> is NaN, one of the two infinities, or a finite value. The controller only
  compares numbers and takes \<open>Math.min\<close> and \<open>Math.max\<close> of them, which are exact, so a
  finite number is a real.
\<close>

datatype jsnum = NaN | PosInf | NegInf | Fin real

fun isFinite :: "jsnum \<Rightarrow> bool" where
  "isFinite (Fin x) = True"
| "isFinite v = False"

text \<open>\<open>a < b\<close>: every comparison with NaN is false.\<close>

fun js_less :: "jsnum \<Rightarrow> jsnum \<Rightarrow> bool" where
  "js_less NaN b = False"
| "js_less a NaN = False"
| "js_less PosInf b = False"
| "js_less a NegInf = False"
| "js_less NegInf b = True"
| "js_less a PosInf = True"
| "js_less (Fin x) (Fin y) = (x < y)"

definition Math_max :: "jsnum \<Rightarrow> jsnum \<Rightarrow> jsnum" where
  "Math_max a b = (if a = NaN \<or> b = NaN then NaN else if js_less a b then b else a)"

definition Math_min :: "jsnum \<Rightarrow> jsnum \<Rightarrow> jsnum" where
  "Math_min a b = (if a = NaN \<or> b = NaN then NaN else if js_less b a then b else a)"

text \<open>The operand test of \<open>a || b\<close>: 0 and NaN are falsy.\<close>

definition truthy :: "jsnum \<Rightarrow> bool" where
  "truthy a = (a \<noteq> NaN \<and> a \<noteq> Fin 0)"

section \<open>Byte arrays\<close>

type_synonym byte = "8 word"

text \<open>
  Reads are checked: an index outside the array is a fault of its own, so that a parser
  that never reads out of range is one that never returns \<open>Inl\<close>. \<open>UndefinedRead\<close> is
  the \<open>undefined\<close> a typed array yields there, \<open>RangeError\<close> what a \<open>DataView\<close> throws.
\<close>

datatype fault = UndefinedRead | RangeError

fun andThen :: "fault + 'a \<Rightarrow> ('a \<Rightarrow> fault + 'b) \<Rightarrow> fault + 'b" where
  "andThen (Inl e) f = Inl e"
| "andThen (Inr x) f = f x"

definition rd :: "byte list \<Rightarrow> int \<Rightarrow> fault + byte" where
  "rd bytes i = (if 0 \<le> i \<and> i < int (length bytes) then Inr (bytes ! nat i) else Inl UndefinedRead)"

definition getUint8 :: "byte list \<Rightarrow> int \<Rightarrow> fault + byte" where
  "getUint8 view i = (if 0 \<le> i \<and> i + 1 \<le> int (length view) then Inr (view ! nat i) else Inl RangeError)"

definition getUint32 :: "byte list \<Rightarrow> int \<Rightarrow> fault + int" where
  "getUint32 view i =
     (if 0 \<le> i \<and> i + 4 \<le> int (length view)
      then Inr (uint (view ! nat i) * 2 ^ 24 + uint (view ! nat (i + 1)) * 2 ^ 16
                + uint (view ! nat (i + 2)) * 2 ^ 8 + uint (view ! nat (i + 3)))
      else Inl RangeError)"

text \<open>\<open>Blob.slice\<close> and \<open>subarray\<close>: both ends are clamped to the array, a negative end
  counts from the back.\<close>

definition relIndex :: "int \<Rightarrow> int \<Rightarrow> int" where
  "relIndex len i = (if i < 0 then max (len + i) 0 else min i len)"

definition slice_bytes :: "byte list \<Rightarrow> int \<Rightarrow> int \<Rightarrow> byte list" where
  "slice_bytes bytes start end =
     (let len = int (length bytes); a = relIndex len start; b = relIndex len end
      in take (nat (max (b - a) 0)) (drop (nat a) bytes))"

definition subarray :: "byte list \<Rightarrow> int \<Rightarrow> int \<Rightarrow> byte list" where
  "subarray bytes begin end =
     (let len = int (length bytes); a = relIndex len begin; b = relIndex len end
      in take (nat (max (b - a) 0)) (drop (nat a) bytes))"

fun indexOfAux :: "byte list \<Rightarrow> byte \<Rightarrow> int \<Rightarrow> int" where
  "indexOfAux [] v k = - 1"
| "indexOfAux (x # xs) v k = (if x = v then k else indexOfAux xs v (k + 1))"

definition indexOf :: "byte list \<Rightarrow> byte \<Rightarrow> int \<Rightarrow> int" where
  "indexOf bytes v fromIndex =
     (let k = (if fromIndex < 0 then max (int (length bytes) + fromIndex) 0 else fromIndex)
      in indexOfAux (drop (nat k) bytes) v k)"

section \<open>Strings of the picture frame\<close>

text \<open>
  A string is a list of 8-bit characters, which is all the extractor needs: a frame
  identifier is four bytes read as character codes, and the MIME string is decoded as
  ISO-8859-1, every byte its own code point. (A browser reads the bytes 128 to 159 of that
  label as windows-1252; no claim depends on them.) \<open>trim\<close> and \<open>toLowerCase\<close> are the
  JavaScript functions restricted to these characters.
\<close>

definition fromCharCode :: "byte \<Rightarrow> char" where
  "fromCharCode b = char_of (unat b)"

definition decodeLatin1 :: "byte list \<Rightarrow> string" where
  "decodeLatin1 bytes = map fromCharCode bytes"

definition isWhiteSpace :: "char \<Rightarrow> bool" where
  "isWhiteSpace c = ((of_char c :: nat) \<in> {9, 10, 11, 12, 13, 32, 160})"

definition trim :: "string \<Rightarrow> string" where
  "trim s = rev (dropWhile isWhiteSpace (rev (dropWhile isWhiteSpace s)))"

definition lowerChar :: "char \<Rightarrow> char" where
  "lowerChar c =
     (let n = (of_char c :: nat)
      in if (65 \<le> n \<and> n \<le> 90) \<or> (192 \<le> n \<and> n \<le> 222 \<and> n \<noteq> 215) then char_of (n + 32) else c)"

definition toLowerCase :: "string \<Rightarrow> string" where
  "toLowerCase s = map lowerChar s"

definition isUpperOrDigit :: "char \<Rightarrow> bool" where
  "isUpperOrDigit c =
     (let n = (of_char c :: nat) in (65 \<le> n \<and> n \<le> 90) \<or> (48 \<le> n \<and> n \<le> 57))"

section \<open>The ID3v2 metadata extractor\<close>

text \<open>
  The image resource: the MIME type and the bytes handed to the \<open>Blob\<close> constructor. The
  object URL the platform makes of the blob is opaque, so the model returns the blob.
\<close>

record image =
  mime :: string
  payload :: "byte list"

text \<open>
  \<open>b0 << 21 | b1 << 14 | b2 << 7 | b3\<close>: the shifts and the ors are those of 32-bit
  integers, and the result is read as a signed one.
\<close>

definition shiftOr :: "byte \<Rightarrow> byte \<Rightarrow> byte \<Rightarrow> byte \<Rightarrow> int" where
  "shiftOr b0 b1 b2 b3 =
     sint ((push_bit 21 (ucast b0) OR push_bit 14 (ucast b1) OR push_bit 7 (ucast b2) OR ucast b3)
            :: 32 word)"

definition readSynchsafeInteger :: "byte list \<Rightarrow> int \<Rightarrow> fault + int" where
  "readSynchsafeInteger bytes offset =
     (if offset + 4 > int (length bytes) then Inr 0
      else andThen (rd bytes offset) (\<lambda>b0.
           andThen (rd bytes (offset + 1)) (\<lambda>b1.
           andThen (rd bytes (offset + 2)) (\<lambda>b2.
           andThen (rd bytes (offset + 3)) (\<lambda>b3.
           Inr (shiftOr b0 b1 b2 b3))))))"

definition readSynchsafeFromView :: "byte list \<Rightarrow> int \<Rightarrow> fault + int" where
  "readSynchsafeFromView view offset =
     (if offset + 4 > int (length view) then Inr 0
      else andThen (getUint8 view offset) (\<lambda>b0.
           andThen (getUint8 view (offset + 1)) (\<lambda>b1.
           andThen (getUint8 view (offset + 2)) (\<lambda>b2.
           andThen (getUint8 view (offset + 3)) (\<lambda>b3.
           Inr (shiftOr b0 b1 b2 b3))))))"

definition decodeFrameId :: "byte list \<Rightarrow> int \<Rightarrow> fault + string" where
  "decodeFrameId bytes offset =
     (if offset + 4 > int (length bytes) then Inr ''''
      else andThen (rd bytes offset) (\<lambda>c0.
           andThen (rd bytes (offset + 1)) (\<lambda>c1.
           andThen (rd bytes (offset + 2)) (\<lambda>c2.
           andThen (rd bytes (offset + 3)) (\<lambda>c3.
           let chars = map fromCharCode [c0, c1, c2, c3]
           in Inr (if list_all isUpperOrDigit chars then chars else ''''))))))"

text \<open>The two loops of \<open>advancePastEncodedString\<close>; each returns the offset it stops at.\<close>

function skipToNull :: "byte list \<Rightarrow> int \<Rightarrow> int \<Rightarrow> fault + int" where
  "skipToNull data offset end =
     (if offset < end
      then (case rd data offset of
              Inl e \<Rightarrow> Inl e
            | Inr b \<Rightarrow> if b \<noteq> 0 then skipToNull data (offset + 1) end else Inr offset)
      else Inr offset)"
  by pat_completeness auto
termination
  by (relation "measure (\<lambda>(data, offset, end). nat (end - offset))") auto

function skipToNullPair :: "byte list \<Rightarrow> int \<Rightarrow> int \<Rightarrow> fault + int" where
  "skipToNullPair data offset end =
     (if offset + 1 < end
      then (case rd data offset of
              Inl e \<Rightarrow> Inl e
            | Inr b0 \<Rightarrow>
                if b0 = 0
                then (case rd data (offset + 1) of
                        Inl e \<Rightarrow> Inl e
                      | Inr b1 \<Rightarrow>
                          if b1 = 0 then Inr (min (offset + 2) end)
                          else skipToNullPair data (offset + 2) end)
                else skipToNullPair data (offset + 2) end)
      else Inr end)"
  by pat_completeness auto
termination
  by (relation "measure (\<lambda>(data, offset, end). nat (end - offset))") auto

declare skipToNull.simps [simp del] skipToNullPair.simps [simp del]

definition advancePastEncodedString :: "byte list \<Rightarrow> int \<Rightarrow> int \<Rightarrow> int \<Rightarrow> fault + int" where
  "advancePastEncodedString data offset end encoding =
     (if offset \<ge> end then Inr end
      else if encoding = 0 \<or> encoding = 3
      then andThen (skipToNull data offset end) (\<lambda>offset'. Inr (min (offset' + 1) end))
      else skipToNullPair data offset end)"

text \<open>
  \<open>(this.latin1Decoder?.decode(mimeBytes).trim() || 'image/jpeg').toLowerCase()\<close>, where
  \<open>latin1Decoder\<close> is the flag of whether the platform has a \<open>TextDecoder\<close>: without one
  the decoded string is absent.
\<close>

definition mimeTypeOf :: "bool \<Rightarrow> byte list \<Rightarrow> string" where
  "mimeTypeOf latin1Decoder mimeBytes =
     (let decoded = (if latin1Decoder then trim (decodeLatin1 mimeBytes) else '''')
      in toLowerCase (if decoded \<noteq> '''' then decoded else ''image/jpeg''))"

definition parseApicFrame :: "bool \<Rightarrow> byte list \<Rightarrow> fault + image option" where
  "parseApicFrame latin1Decoder frameData =
     (if int (length frameData) < 4 then Inr None
      else andThen (rd frameData 0) (\<lambda>textEncoding.
        let cursor = 1;
            mimeTerminator = indexOf frameData 0 cursor
        in if mimeTerminator = - 1 then Inr None
           else
             let mimeBytes = subarray frameData cursor mimeTerminator;
                 mimeType = mimeTypeOf latin1Decoder mimeBytes;
                 cursor = mimeTerminator + 1
             in if cursor \<ge> int (length frameData) then Inr None
                else
                  let cursor = cursor + 1
                  in andThen
                       (advancePastEncodedString frameData cursor (int (length frameData))
                          (uint textEncoding))
                       (\<lambda>cursor.
                          if cursor \<ge> int (length frameData) then Inr None
                          else
                            let imageBytes = subarray frameData cursor (int (length frameData))
                            in if imageBytes = [] then Inr None
                               else Inr (Some \<lparr>mime = (if mimeType \<noteq> '''' then mimeType
                                                       else ''image/jpeg''),
                                                payload = imageBytes\<rparr>))))"

text \<open>The size field of the frame header at \<open>offset\<close>: synchsafe for version 4, plain
  big-endian otherwise.\<close>

definition declaredFrameSize :: "int \<Rightarrow> byte list \<Rightarrow> int \<Rightarrow> fault + int" where
  "declaredFrameSize version view offset =
     (if version = 4 then readSynchsafeFromView view (offset + 4) else getUint32 view (offset + 4))"

text \<open>The frame walk: the \<open>while\<close> loop of \<open>extractArtworkUrl\<close>, from \<open>offset\<close>.\<close>

function frameWalk :: "bool \<Rightarrow> int \<Rightarrow> byte list \<Rightarrow> int \<Rightarrow> fault + image option" where
  "frameWalk latin1Decoder version tag offset =
     (if offset + 10 \<le> int (length tag)
      then (case rd tag offset of
              Inl e \<Rightarrow> Inl e
            | Inr first \<Rightarrow>
                if first = 0 then Inr None
                else (case decodeFrameId tag offset of
                        Inl e \<Rightarrow> Inl e
                      | Inr frameId \<Rightarrow>
                          if frameId = '''' then Inr None
                          else (case declaredFrameSize version tag offset of
                                  Inl e \<Rightarrow> Inl e
                                | Inr frameSize \<Rightarrow>
                                    if frameSize = 0 \<or> frameSize < 1 then Inr None
                                    else if offset + 10 + frameSize > int (length tag) then Inr None
                                    else if frameId = ''APIC''
                                    then (case parseApicFrame latin1Decoder
                                                 (subarray tag (offset + 10) (offset + 10 + frameSize)) of
                                            Inl e \<Rightarrow> Inl e
                                          | Inr (Some artworkUrl) \<Rightarrow> Inr (Some artworkUrl)
                                          | Inr None \<Rightarrow>
                                              frameWalk latin1Decoder version tag
                                                (offset + 10 + frameSize))
                                    else frameWalk latin1Decoder version tag
                                           (offset + 10 + frameSize))))
      else Inr None)"
  by pat_completeness auto
termination
  by (relation "measure (\<lambda>(d, v, tag, offset). nat (int (length tag) - offset))") auto

declare frameWalk.simps [simp del]

definition extractArtworkUrl :: "bool \<Rightarrow> byte list \<Rightarrow> fault + image option" where
  "extractArtworkUrl latin1Decoder file =
     (let header = slice_bytes file 0 10
      in if length header < 10 then Inr None
         else andThen (rd header 0) (\<lambda>h0. if h0 \<noteq> 0x49 then Inr None else
              andThen (rd header 1) (\<lambda>h1. if h1 \<noteq> 0x44 then Inr None else
              andThen (rd header 2) (\<lambda>h2. if h2 \<noteq> 0x33 then Inr None else
              andThen (rd header 3) (\<lambda>version. if version < 3 then Inr None else
              andThen (rd header 5) (\<lambda>flags.
              andThen (readSynchsafeInteger header 6) (\<lambda>tagSize.
                if tagSize = 0 then Inr None
                else
                  let tagBuffer = slice_bytes file 10 (10 + tagSize)
                  in if length tagBuffer = 0 then Inr None
                     else
                       let tagLength = int (length tagBuffer);
                           tagLength = (if flags AND 0x10 \<noteq> 0 \<and> tagLength \<ge> 10
                                        then tagLength - 10 else tagLength);
                           tag = take (nat tagLength) tagBuffer
                       in andThen
                            (if flags AND 0x40 \<noteq> 0 \<and> int (length tag) \<ge> 4
                             then (if version = 3 \<and> int (length tag) \<ge> 4
                                   then andThen (getUint32 tag 0)
                                          (\<lambda>extSize. Inr (min (extSize + 4) (int (length tag))))
                                   else if version = 4
                                   then andThen (readSynchsafeFromView tag 0)
                                          (\<lambda>extSize. Inr (min extSize (int (length tag))))
                                   else Inr 0)
                             else Inr 0)
                            (\<lambda>offset. frameWalk latin1Decoder (uint version) tag offset))))))))"

section \<open>The ordered track sequence\<close>

text \<open>
  Nodes are objects with an identity: \<open>addr\<close> is that identity, and the fields of every
  node ever created live in the three maps \<open>nxt\<close>, \<open>prv\<close> and \<open>val\<close> of the list that
  created it. \<open>fresh\<close> is the identity the next \<open>createNode\<close> hands out. A reference
  that may be \<open>null\<close> is an \<open>addr option\<close>.
\<close>

type_synonym addr = nat

record 'a dll =
  nxt :: "addr \<Rightarrow> addr option"
  prv :: "addr \<Rightarrow> addr option"
  val :: "addr \<Rightarrow> 'a"
  fresh :: addr
  head :: "addr option"
  tail :: "addr option"
  length_dll :: int

definition empty_dll :: "'a dll" where
  "empty_dll =
     \<lparr>nxt = (\<lambda>a. None), prv = (\<lambda>a. None), val = (\<lambda>a. undefined), fresh = 0,
      head = None, tail = None, length_dll = 0\<rparr>"

definition createNode :: "'a dll \<Rightarrow> 'a \<Rightarrow> addr \<times> 'a dll" where
  "createNode s v =
     (fresh s,
      s\<lparr>nxt := (nxt s)(fresh s := None), prv := (prv s)(fresh s := None),
        val := (val s)(fresh s := v), fresh := Suc (fresh s)\<rparr>)"

definition insertAtStart :: "'a dll \<Rightarrow> 'a \<Rightarrow> addr \<times> 'a dll" where
  "insertAtStart s v =
     (let (node, s) = createNode s v;
          s = (case head s of
                 None \<Rightarrow> s\<lparr>head := Some node, tail := Some node\<rparr>
               | Some h \<Rightarrow>
                   s\<lparr>nxt := (nxt s)(node := head s), prv := (prv s)(h := Some node),
                     head := Some node\<rparr>)
      in (node, s\<lparr>length_dll := length_dll s + 1\<rparr>))"

definition insertAtEnd :: "'a dll \<Rightarrow> 'a \<Rightarrow> addr \<times> 'a dll" where
  "insertAtEnd s v =
     (let (node, s) = createNode s v;
          s = (case tail s of
                 None \<Rightarrow> s\<lparr>head := Some node, tail := Some node\<rparr>
               | Some t \<Rightarrow>
                   s\<lparr>prv := (prv s)(node := tail s), nxt := (nxt s)(t := Some node),
                     tail := Some node\<rparr>)
      in (node, s\<lparr>length_dll := length_dll s + 1\<rparr>))"

text \<open>\<open>while (steps > 0 && current) { current = current.next; steps -= 1; }\<close>, along the
  link map \<open>f\<close>.\<close>

function walk :: "(addr \<Rightarrow> addr option) \<Rightarrow> int \<Rightarrow> addr option \<Rightarrow> addr option" where
  "walk f steps current =
     (if steps > 0
      then (case current of None \<Rightarrow> None | Some c \<Rightarrow> walk f (steps - 1) (f c))
      else current)"
  by pat_completeness auto
termination
  by (relation "measure (\<lambda>(f, steps, current). nat steps)") auto

declare walk.simps [simp del]

definition getNodeAt :: "'a dll \<Rightarrow> int \<Rightarrow> addr option" where
  "getNodeAt s index =
     (if index < 0 \<or> index \<ge> length_dll s then None
      else if real_of_int index \<le> real_of_int (length_dll s) / 2
      then walk (nxt s) index (head s)
      else walk (prv s) (length_dll s - 1 - index) (tail s))"

text \<open>The scan of \<open>indexOfNode\<close>. It ends only when the chain of \<open>next\<close> links does, so
  it is a partial function: \<open>None\<close> is the scan that never returns.\<close>

partial_function (option) indexOfLoop ::
  "(addr \<Rightarrow> addr option) \<Rightarrow> addr \<Rightarrow> addr option \<Rightarrow> int \<Rightarrow> int option" where
  "indexOfLoop f node current index =
     (case current of
        None \<Rightarrow> Some (- 1)
      | Some c \<Rightarrow> if c = node then Some index else indexOfLoop f node (f c) (index + 1))"

definition indexOfNode :: "'a dll \<Rightarrow> addr option \<Rightarrow> int option" where
  "indexOfNode s node =
     (case node of None \<Rightarrow> Some (- 1) | Some n \<Rightarrow> indexOfLoop (nxt s) n (head s) 0)"

definition detachNode :: "'a dll \<Rightarrow> addr \<Rightarrow> 'a dll" where
  "detachNode s node =
     (let s = (case prv s node of
                 Some p \<Rightarrow> s\<lparr>nxt := (nxt s)(p := nxt s node)\<rparr>
               | None \<Rightarrow> s\<lparr>head := nxt s node\<rparr>);
          s = (case nxt s node of
                 Some n \<Rightarrow> s\<lparr>prv := (prv s)(n := prv s node)\<rparr>
               | None \<Rightarrow> s\<lparr>tail := prv s node\<rparr>);
          s = s\<lparr>length_dll := max 0 (length_dll s - 1)\<rparr>;
          s = s\<lparr>nxt := (nxt s)(node := None)\<rparr>
      in s\<lparr>prv := (prv s)(node := None)\<rparr>)"

definition insertAt :: "'a dll \<Rightarrow> 'a \<Rightarrow> int \<Rightarrow> addr \<times> 'a dll" where
  "insertAt s v index =
     (if index \<le> 0 \<or> head s = None then insertAtStart s v
      else if index \<ge> length_dll s then insertAtEnd s v
      else (case getNodeAt s index of
              None \<Rightarrow> insertAtEnd s v
            | Some current \<Rightarrow>
                let (node, s) = createNode s v;
                    s = s\<lparr>prv := (prv s)(node := prv s current)\<rparr>;
                    s = s\<lparr>nxt := (nxt s)(node := Some current)\<rparr>;
                    s = (case prv s current of
                           Some p \<Rightarrow> s\<lparr>nxt := (nxt s)(p := Some node)\<rparr>
                         | None \<Rightarrow> s);
                    s = s\<lparr>prv := (prv s)(current := Some node)\<rparr>
                in (node, s\<lparr>length_dll := length_dll s + 1\<rparr>)))"

text \<open>\<open>node.prev = this.tail; if (this.tail) this.tail.next = node; this.tail = node;\<close>,
  the block \<open>moveNode\<close> has twice.\<close>

definition appendDetached :: "'a dll \<Rightarrow> addr \<Rightarrow> 'a dll" where
  "appendDetached s node =
     (let s = s\<lparr>prv := (prv s)(node := tail s)\<rparr>;
          s = (case tail s of Some t \<Rightarrow> s\<lparr>nxt := (nxt s)(t := Some node)\<rparr> | None \<Rightarrow> s)
      in s\<lparr>tail := Some node\<rparr>)"

definition moveNode :: "'a dll \<Rightarrow> int \<Rightarrow> int \<Rightarrow> addr option \<times> 'a dll" where
  "moveNode s fromIndex toIndex =
     (if fromIndex = toIndex then (getNodeAt s fromIndex, s)
      else (case getNodeAt s fromIndex of
              None \<Rightarrow> (None, s)
            | Some node \<Rightarrow>
                let s = detachNode s node;
                    targetIndex = toIndex;
                    targetIndex = (if targetIndex < 0 then 0 else targetIndex);
                    targetIndex = (if targetIndex > length_dll s then length_dll s else targetIndex)
                in (case head s of
                      None \<Rightarrow> (Some node, s\<lparr>head := Some node, tail := Some node, length_dll := 1\<rparr>)
                    | Some h \<Rightarrow>
                        if length_dll s = 0
                        then (Some node, s\<lparr>head := Some node, tail := Some node, length_dll := 1\<rparr>)
                        else
                          let s =
                            (if targetIndex = 0
                             then s\<lparr>nxt := (nxt s)(node := head s), prv := (prv s)(h := Some node),
                                    head := Some node\<rparr>
                             else if targetIndex = length_dll s then appendDetached s node
                             else (case getNodeAt s targetIndex of
                                     None \<Rightarrow> appendDetached s node
                                   | Some target \<Rightarrow>
                                       let s = s\<lparr>nxt := (nxt s)(node := Some target)\<rparr>;
                                           s = s\<lparr>prv := (prv s)(node := prv s target)\<rparr>;
                                           s = (case prv s target of
                                                  Some p \<Rightarrow> s\<lparr>nxt := (nxt s)(p := Some node)\<rparr>
                                                | None \<Rightarrow> s\<lparr>head := Some node\<rparr>)
                                       in s\<lparr>prv := (prv s)(target := Some node)\<rparr>))
                          in (Some node, s\<lparr>length_dll := length_dll s + 1\<rparr>))))"

definition removeNode :: "'a dll \<Rightarrow> addr option \<Rightarrow> addr option \<times> 'a dll" where
  "removeNode s node =
     (case node of
        None \<Rightarrow> (None, s)
      | Some n \<Rightarrow>
          let s = detachNode s n;
              s = s\<lparr>nxt := (nxt s)(n := None)\<rparr>;
              s = s\<lparr>prv := (prv s)(n := None)\<rparr>
          in (Some n, s))"

definition removeAt :: "'a dll \<Rightarrow> int \<Rightarrow> addr option \<times> 'a dll" where
  "removeAt s index = removeNode s (getNodeAt s index)"

text \<open>The loop of \<open>toArray\<close>, pushing \<open>g\<close> of every node it visits along \<open>f\<close>.\<close>

partial_function (option) collect ::
  "(addr \<Rightarrow> addr option) \<Rightarrow> (addr \<Rightarrow> 'b) \<Rightarrow> addr option \<Rightarrow> 'b list \<Rightarrow> 'b list option" where
  "collect f g current result =
     (case current of
        None \<Rightarrow> Some result
      | Some c \<Rightarrow> collect f g (f c) (result @ [g c]))"

definition toArray :: "'a dll \<Rightarrow> 'a list option" where
  "toArray s = collect (nxt s) (val s) (head s) []"

text \<open>
  The two traversals the structural invariant speaks of: forward is the loop of
  \<open>toArray\<close> keeping the nodes themselves, backward is the same loop from \<open>tail\<close> along
  \<open>prev\<close>.
\<close>

definition forwardNodes :: "'a dll \<Rightarrow> addr list option" where
  "forwardNodes s = collect (nxt s) (\<lambda>c. c) (head s) []"

definition backwardNodes :: "'a dll \<Rightarrow> addr list option" where
  "backwardNodes s = collect (prv s) (\<lambda>c. c) (tail s) []"

datatype 'a list_op =
    InsertAtStart 'a
  | InsertAtEnd 'a
  | InsertAt 'a int
  | RemoveAt int
  | MoveNode int int

fun apply_op :: "'a dll \<Rightarrow> 'a list_op \<Rightarrow> 'a dll" where
  "apply_op s (InsertAtStart v) = snd (insertAtStart s v)"
| "apply_op s (InsertAtEnd v) = snd (insertAtEnd s v)"
| "apply_op s (InsertAt v i) = snd (insertAt s v i)"
| "apply_op s (RemoveAt i) = snd (removeAt s i)"
| "apply_op s (MoveNode i j) = snd (moveNode s i j)"

definition run_ops :: "'a list_op list \<Rightarrow> 'a dll" where
  "run_ops ops = foldl apply_op empty_dll ops"

section \<open>The playback session controller\<close>

record track =
  track_id :: string
  track_name :: string
  track_url :: string
  track_file :: "string \<times> nat"
  track_duration :: "jsnum option"
  track_artworkUrl :: "string option"

text \<open>
  The platform playback handle, as far as the controller drives it: the source and the
  current time it was last given, whether it is paused, the duration it reports, and how
  often \<open>play()\<close> and \<open>load()\<close> were called. \<open>play()\<close> answers later, through
  \<open>onPlayFulfilled\<close> or \<open>onPlayRejected\<close>.
\<close>

record audio_element =
  src :: string
  paused :: bool
  audio_currentTime :: jsnum
  audio_duration :: jsnum
  playCalls :: nat
  loadCalls :: nat

definition audio_pause :: "audio_element \<Rightarrow> audio_element" where
  "audio_pause a = a\<lparr>paused := True\<rparr>"

definition audio_play :: "audio_element \<Rightarrow> audio_element" where
  "audio_play a = a\<lparr>paused := False, playCalls := Suc (playCalls a)\<rparr>"

definition audio_load :: "audio_element \<Rightarrow> audio_element" where
  "audio_load a = a\<lparr>loadCalls := Suc (loadCalls a)\<rparr>"

text \<open>\<open>revoked\<close> lists the URLs given to \<open>URL.revokeObjectURL\<close>, in order.\<close>

record app =
  tracks :: "track list"
  currentTrackIndex :: int
  isPlaying :: bool
  isLoadingTrack :: bool
  currentTime :: jsnum
  duration :: jsnum
  volume :: jsnum
  audio :: audio_element
  playlist :: "track dll"
  currentNode :: "addr option"
  latin1Decoder :: bool
  revoked :: "string list"

definition new_audio :: audio_element where
  "new_audio =
     \<lparr>src = '''', paused = True, audio_currentTime = Fin 0, audio_duration = NaN,
      playCalls = 0, loadCalls = 0\<rparr>"

definition new_app :: "bool \<Rightarrow> app" where
  "new_app hasTextDecoder =
     \<lparr>tracks = [], currentTrackIndex = - 1, isPlaying = False, isLoadingTrack = False,
      currentTime = Fin 0, duration = Fin 0, volume = Fin (8 / 10), audio = new_audio,
      playlist = empty_dll, currentNode = None, latin1Decoder = hasTextDecoder, revoked = []\<rparr>"

definition playInternal :: "app \<Rightarrow> app" where
  "playInternal s = s\<lparr>audio := audio_play (audio s)\<rparr>"

definition onPlayFulfilled :: "app \<Rightarrow> app" where
  "onPlayFulfilled s = s\<lparr>isPlaying := True, isLoadingTrack := False\<rparr>"

definition onPlayRejected :: "app \<Rightarrow> app" where
  "onPlayRejected s = s\<lparr>isPlaying := False, isLoadingTrack := False\<rparr>"

text \<open>The time \<open>seekTo\<close> hands to the playback handle, for a finite \<open>value\<close>.\<close>

definition clampedTime :: "app \<Rightarrow> jsnum \<Rightarrow> jsnum" where
  "clampedTime s v =
     (let maxBoundary =
            (if isFinite (audio_duration (audio s)) \<and> js_less (Fin 0) (audio_duration (audio s))
             then audio_duration (audio s) else Math_max (duration s) v)
      in Math_min (Math_max v (Fin 0)) (if truthy maxBoundary then maxBoundary else v))"

definition seekTo :: "app \<Rightarrow> jsnum \<Rightarrow> app" where
  "seekTo s v =
     (if \<not> isFinite v then s
      else
        let s = s\<lparr>audio := (audio s)\<lparr>audio_currentTime := clampedTime s v\<rparr>\<rparr>
        in s\<lparr>currentTime := audio_currentTime (audio s)\<rparr>)"

definition selectNode :: "app \<Rightarrow> addr \<Rightarrow> bool \<Rightarrow> app option" where
  "selectNode s node shouldPlay =
     (let isSameNode = (Some node = currentNode s);
          s = s\<lparr>currentNode := Some node\<rparr>
      in case indexOfNode (playlist s) (Some node) of
           None \<Rightarrow> None
         | Some i \<Rightarrow>
             let s = s\<lparr>currentTrackIndex := i\<rparr>;
                 s = (if \<not> isSameNode
                      then
                        let t = val (playlist s) node;
                            s = s\<lparr>isLoadingTrack := True\<rparr>;
                            s = s\<lparr>duration := (case track_duration t of None \<Rightarrow> Fin 0 | Some d \<Rightarrow> d)\<rparr>;
                            s = s\<lparr>currentTime := Fin 0\<rparr>;
                            s = s\<lparr>audio := (audio s)\<lparr>src := track_url t\<rparr>\<rparr>
                        in s\<lparr>audio := audio_load (audio s)\<rparr>
                      else s)
             in Some (if shouldPlay then playInternal s else s\<lparr>isPlaying := False\<rparr>))"

definition refreshPlaylistSnapshot :: "app \<Rightarrow> app option" where
  "refreshPlaylistSnapshot s =
     (case toArray (playlist s) of
        None \<Rightarrow> None
      | Some ts \<Rightarrow>
          let s = s\<lparr>tracks := ts\<rparr>
          in (case indexOfNode (playlist s) (currentNode s) of
                None \<Rightarrow> None
              | Some i \<Rightarrow> Some (s\<lparr>currentTrackIndex := i\<rparr>)))"

definition releaseTrackResources :: "app \<Rightarrow> track \<Rightarrow> app" where
  "releaseTrackResources s t =
     (let s = s\<lparr>revoked := revoked s @ [track_url t]\<rparr>
      in case track_artworkUrl t of
           None \<Rightarrow> s
         | Some u \<Rightarrow> if u \<noteq> '''' then s\<lparr>revoked := revoked s @ [u]\<rparr> else s)"

definition playTrack :: "app \<Rightarrow> int \<Rightarrow> app option" where
  "playTrack s index =
     (if index < 0 \<or> index \<ge> int (length (tracks s)) then Some s
      else (case getNodeAt (playlist s) index of
              None \<Rightarrow> Some s
            | Some node \<Rightarrow> selectNode s node True))"

definition removeTrack :: "app \<Rightarrow> int \<Rightarrow> app option" where
  "removeTrack s index =
     (case getNodeAt (playlist s) index of
        None \<Rightarrow> Some s
      | Some node \<Rightarrow>
          let nextNode = nxt (playlist s) node;
              prevNode = prv (playlist s) node;
              wasCurrent = (Some node = currentNode s);
              wasPlaying = isPlaying s;
              trackToRemove = val (playlist s) node;
              s = s\<lparr>playlist := snd (removeNode (playlist s) (Some node))\<rparr>;
              s = releaseTrackResources s trackToRemove
          in (case (if wasCurrent
                    then
                      let s = s\<lparr>audio := audio_pause (audio s)\<rparr>;
                          s = s\<lparr>isPlaying := False\<rparr>;
                          s = s\<lparr>isLoadingTrack := False\<rparr>;
                          replacement = (case nextNode of Some n \<Rightarrow> Some n | None \<Rightarrow> prevNode)
                      in (case replacement of
                            Some r \<Rightarrow> selectNode s r wasPlaying
                          | None \<Rightarrow>
                              Some (s\<lparr>currentNode := None, currentTrackIndex := - 1,
                                      duration := Fin 0, currentTime := Fin 0,
                                      audio := (audio s)\<lparr>src := ''''\<rparr>\<rparr>))
                    else Some s) of
                None \<Rightarrow> None
              | Some s \<Rightarrow> refreshPlaylistSnapshot s))"

section \<open>Index arguments that are not whole numbers\<close>

text \<open>
  The index parameters are declared \<open>index: number\<close>. The definitions above take them as
  integers, which is what a position is; the definitions of this section are the same
  source functions at an arbitrary number, NaN and fractions included, and coincide with
  the ones above on every whole number.
\<close>

text \<open>\<open>a <= b\<close>: false when either side is NaN.\<close>

definition js_le :: "jsnum \<Rightarrow> jsnum \<Rightarrow> bool" where
  "js_le a b = (a \<noteq> NaN \<and> b \<noteq> NaN \<and> \<not> js_less b a)"

text \<open>The loop of \<open>getNodeAt\<close> with a finite number of steps that need not be whole.\<close>

function walk_number :: "(addr \<Rightarrow> addr option) \<Rightarrow> real \<Rightarrow> addr option \<Rightarrow> addr option" where
  "walk_number f steps current =
     (if steps > 0
      then (case current of None \<Rightarrow> None | Some c \<Rightarrow> walk_number f (steps - 1) (f c))
      else current)"
  by pat_completeness auto
termination
  by (relation "measure (\<lambda>(f, steps, current). nat \<lceil>steps\<rceil>)")
     (auto simp add: zero_less_ceiling)

declare walk_number.simps [simp del]

text \<open>
  \<open>getNodeAt\<close> at a number. An infinity fails the guard. NaN passes it, since both of its
  comparisons are false; so is \<open>NaN <= length / 2\<close>, the steps \<open>length - 1 - NaN\<close> are
  NaN, \<open>NaN > 0\<close> is false, and the loop from the tail does not run.
\<close>

definition getNodeAt_number :: "'a dll \<Rightarrow> jsnum \<Rightarrow> addr option" where
  "getNodeAt_number s index =
     (if js_less index (Fin 0) \<or> js_le (Fin (real_of_int (length_dll s))) index then None
      else (case index of
              Fin r \<Rightarrow>
                if r \<le> real_of_int (length_dll s) / 2
                then walk_number (nxt s) r (head s)
                else walk_number (prv s) (real_of_int (length_dll s) - 1 - r) (tail s)
            | NaN \<Rightarrow> tail s
            | PosInf \<Rightarrow> None
            | NegInf \<Rightarrow> None))"

definition insertAt_number :: "'a dll \<Rightarrow> 'a \<Rightarrow> jsnum \<Rightarrow> addr \<times> 'a dll" where
  "insertAt_number s v index =
     (if js_le index (Fin 0) \<or> head s = None then insertAtStart s v
      else if js_le (Fin (real_of_int (length_dll s))) index then insertAtEnd s v
      else (case getNodeAt_number s index of
              None \<Rightarrow> insertAtEnd s v
            | Some current \<Rightarrow>
                let (node, s) = createNode s v;
                    s = s\<lparr>prv := (prv s)(node := prv s current)\<rparr>;
                    s = s\<lparr>nxt := (nxt s)(node := Some current)\<rparr>;
                    s = (case prv s current of
                           Some p \<Rightarrow> s\<lparr>nxt := (nxt s)(p := Some node)\<rparr>
                         | None \<Rightarrow> s);
                    s = s\<lparr>prv := (prv s)(current := Some node)\<rparr>
                in (node, s\<lparr>length_dll := length_dll s + 1\<rparr>)))"

definition playTrack_number :: "app \<Rightarrow> jsnum \<Rightarrow> app option" where
  "playTrack_number s index =
     (if js_less index (Fin 0) \<or> js_le (Fin (real (length (tracks s)))) index then Some s
      else (case getNodeAt_number (playlist s) index of
              None \<Rightarrow> Some s
            | Some node \<Rightarrow> selectNode s node True))"

definition removeTrack_number :: "app \<Rightarrow> jsnum \<Rightarrow> app option" where
  "removeTrack_number s index =
     (case getNodeAt_number (playlist s) index of
        None \<Rightarrow> Some s
      | Some node \<Rightarrow>
          let nextNode = nxt (playlist s) node;
              prevNode = prv (playlist s) node;
              wasCurrent = (Some node = currentNode s);
              wasPlaying = isPlaying s;
              trackToRemove = val (playlist s) node;
              s = s\<lparr>playlist := snd (removeNode (playlist s) (Some node))\<rparr>;
              s = releaseTrackResources s trackToRemove
          in (case (if wasCurrent
                    then
                      let s = s\<lparr>audio := audio_pause (audio s)\<rparr>;
                          s = s\<lparr>isPlaying := False\<rparr>;
                          s = s\<lparr>isLoadingTrack := False\<rparr>;
                          replacement = (case nextNode of Some n \<Rightarrow> Some n | None \<Rightarrow> prevNode)
                      in (case replacement of
                            Some r \<Rightarrow> selectNode s r wasPlaying
                          | None \<Rightarrow>
                              Some (s\<lparr>currentNode := None, currentTrackIndex := - 1,
                                      duration := Fin 0, currentTime := Fin 0,
                                      audio := (audio s)\<lparr>src := ''''\<rparr>\<rparr>))
                    else Some s) of
                None \<Rightarrow> None
              | Some s \<Rightarrow> refreshPlaylistSnapshot s))"

section \<open>Claims about seeking and the synchsafe decoder: spec-side definitions\<close>

text \<open>
  The effective duration in the words of the specification: the duration the platform
  reports when that is finite and positive, else the larger of the last known duration
  and the requested value.
\<close>

definition effectiveDuration :: "app \<Rightarrow> jsnum \<Rightarrow> jsnum" where
  "effectiveDuration s v =
     (if isFinite (audio_duration (audio s)) \<and> js_less (Fin 0) (audio_duration (audio s))
      then audio_duration (audio s) else Math_max (duration s) v)"

text \<open>\<open>t\<close> lies in \<open>[0, d]\<close>.\<close>

definition withinDuration :: "jsnum \<Rightarrow> jsnum \<Rightarrow> bool" where
  "withinDuration t d = (t \<noteq> NaN \<and> d \<noteq> NaN \<and> \<not> js_less t (Fin 0) \<and> \<not> js_less d t)"

text \<open>
  The synchsafe value in the words of the specification: each byte contributes its low 7
  bits, most significant byte first.
\<close>

definition low7 :: "byte \<Rightarrow> int" where
  "low7 b = uint b mod 128"

definition synchsafe_value :: "byte \<Rightarrow> byte \<Rightarrow> byte \<Rightarrow> byte \<Rightarrow> int" where
  "synchsafe_value b0 b1 b2 b3 = low7 b0 * 2 ^ 21 + low7 b1 * 2 ^ 14 + low7 b2 * 2 ^ 7 + low7 b3"

section \<open>Claims about the picture frame: spec-side definitions\<close>

text \<open>A description in a 2-byte encoding: whole byte pairs, none of them the null pair.\<close>

fun nullPairFree :: "byte list \<Rightarrow> bool" where
  "nullPairFree [] = True"
| "nullPairFree [x] = False"
| "nullPairFree (x # y # r) = (\<not> (x = 0 \<and> y = 0) \<and> nullPairFree r)"

text \<open>
  The picture-frame parser in the words of claim C4: the MIME string at byte 1 ends by the
  convention of the text encoding, exactly as the description does. It differs from
  \<open>parseApicFrame\<close> only in how the end of the MIME string is found.
\<close>

definition terminatorWidth :: "int \<Rightarrow> int" where
  "terminatorWidth encoding = (if encoding = 0 \<or> encoding = 3 then 1 else 2)"

definition parseApicFrame_as_claimed :: "bool \<Rightarrow> byte list \<Rightarrow> fault + image option" where
  "parseApicFrame_as_claimed hasDecoder frameData =
     (if int (length frameData) < 4 then Inr None
      else andThen (rd frameData 0) (\<lambda>textEncoding.
           andThen (advancePastEncodedString frameData 1 (int (length frameData)) (uint textEncoding))
             (\<lambda>cursor.
                let mimeBytes = subarray frameData 1 (cursor - terminatorWidth (uint textEncoding));
                    mimeType = mimeTypeOf hasDecoder mimeBytes
                in if cursor \<ge> int (length frameData) then Inr None
                   else
                     andThen
                       (advancePastEncodedString frameData (cursor + 1) (int (length frameData))
                          (uint textEncoding))
                       (\<lambda>cursor.
                          if cursor \<ge> int (length frameData) then Inr None
                          else Inr (Some \<lparr>mime = mimeType,
                                           payload = subarray frameData cursor
                                                       (int (length frameData))\<rparr>)))))"

section \<open>Claims about the sequence: the chain a list state stands for\<close>

definition first :: "'b list \<Rightarrow> 'b option" where
  "first xs = (case xs of [] \<Rightarrow> None | x # r \<Rightarrow> Some x)"

definition final :: "'b list \<Rightarrow> 'b option" where
  "final xs = first (rev xs)"

text \<open>
  \<open>visits f xs p\<close>: following the links \<open>f\<close> from the reference \<open>p\<close> visits exactly the
  nodes \<open>xs\<close>, in this order, and then reaches \<open>null\<close>.
\<close>

primrec visits :: "(addr \<Rightarrow> addr option) \<Rightarrow> addr list \<Rightarrow> addr option \<Rightarrow> bool" where
  "visits f [] p = (p = None)"
| "visits f (x # xs) p = (p = Some x \<and> visits f xs (f x))"

text \<open>
  The structural invariant: the list state \<open>s\<close> holds the nodes \<open>xs\<close>, head first. The
  \<open>next\<close> links lead from \<open>head\<close> through \<open>xs\<close>, the \<open>prev\<close> links lead from \<open>tail\<close> through
  \<open>xs\<close> reversed, the count is their number, and all of them were created by this list.
\<close>

definition holds :: "'a dll \<Rightarrow> addr list \<Rightarrow> bool" where
  "holds s xs =
     (visits (nxt s) xs (head s) \<and> visits (prv s) (rev xs) (tail s)
      \<and> length_dll s = int (length xs) \<and> list_all (\<lambda>x. x < fresh s) xs)"

text \<open>What \<open>moveNode\<close> is to do to the sequence of nodes, in the words of the
  specification: take the node at \<open>from\<close> out, clamp \<open>to\<close> into \<open>[0, size]\<close> with the size
  after the removal, put the node back at that position.\<close>

definition without :: "nat \<Rightarrow> 'b list \<Rightarrow> 'b list" where
  "without i xs = take i xs @ drop (Suc i) xs"

definition clampIndex :: "int \<Rightarrow> nat \<Rightarrow> nat" where
  "clampIndex i n = nat (max 0 (min i (int n)))"

definition placed :: "nat \<Rightarrow> 'b \<Rightarrow> 'b list \<Rightarrow> 'b list" where
  "placed k x xs = take k xs @ x # drop k xs"

definition moved :: "nat \<Rightarrow> int \<Rightarrow> 'b list \<Rightarrow> 'b list" where
  "moved from to xs =
     (let rest = without from xs in placed (clampIndex to (length rest)) (xs ! from) rest)"

text \<open>
  The sequence of nodes an operation leaves, in array-order terms; \<open>n\<close> is the node a
  creating operation makes.
\<close>

fun op_on_list :: "addr \<Rightarrow> 'a list_op \<Rightarrow> addr list \<Rightarrow> addr list" where
  "op_on_list n (InsertAtStart v) xs = n # xs"
| "op_on_list n (InsertAtEnd v) xs = xs @ [n]"
| "op_on_list n (InsertAt v i) xs = placed (nat i) n xs"
| "op_on_list n (RemoveAt i) xs = (if 0 \<le> i \<and> i < int (length xs) then without (nat i) xs else xs)"
| "op_on_list n (MoveNode i j) xs =
     (if i \<noteq> j \<and> 0 \<le> i \<and> i < int (length xs) then moved (nat i) j xs else xs)"

fun creates :: "'a list_op \<Rightarrow> bool" where
  "creates (RemoveAt i) = False"
| "creates (MoveNode i j) = False"
| "creates op = True"

text \<open>The index of a node reference in the sequence \<open>xs\<close>, \<open>-1\<close> for \<open>null\<close> and for a node
  that is not in it.\<close>

definition indexIn :: "addr list \<Rightarrow> addr option \<Rightarrow> int" where
  "indexIn xs node =
     (case node of
        None \<Rightarrow> - 1
      | Some n \<Rightarrow> if n \<in> set xs then int (length (takeWhile (\<lambda>y. y \<noteq> n) xs)) else - 1)"

section \<open>Claims about the session: spec-side definitions\<close>

text \<open>The resources of a track: its playable URL, and its artwork URL when it has one.\<close>

definition resourcesOf :: "track \<Rightarrow> string list" where
  "resourcesOf t =
     track_url t # (case track_artworkUrl t of None \<Rightarrow> [] | Some u \<Rightarrow> if u \<noteq> '''' then [u] else [])"

text \<open>The node that takes over when the node at index \<open>i\<close> of \<open>xs\<close> goes: its successor when
  there is one, else its predecessor, else none.\<close>

definition replacementOf :: "addr list \<Rightarrow> nat \<Rightarrow> addr option" where
  "replacementOf xs i =
     (if Suc i < length xs then Some (xs ! Suc i) else if 0 < i then Some (xs ! (i - 1)) else None)"

text \<open>A session to try the claims on: two tracks \<open>a\<close> and \<open>b\<close> in the queue, as the nodes 0
  and 1, with \<open>a\<close> current and playing.\<close>

definition demo_track :: "string \<Rightarrow> track" where
  "demo_track n =
     \<lparr>track_id = n, track_name = n, track_url = ''blob:'' @ n, track_file = (n @ ''.mp3'', 1),
      track_duration = None, track_artworkUrl = None\<rparr>"

definition demo_session :: app where
  "demo_session =
     (new_app True)
       \<lparr>tracks := [demo_track ''a'', demo_track ''b''], currentTrackIndex := 0, isPlaying := True,
        audio := new_audio\<lparr>src := ''blob:a'', paused := False, playCalls := 1, loadCalls := 1\<rparr>,
        playlist := snd (insertAtEnd (snd (insertAtEnd empty_dll (demo_track ''a''))) (demo_track ''b'')),
        currentNode := Some 0\<rparr>"

section \<open>The synchsafe decoder\<close>

lemma byte_uint_bounds: "0 \<le> uint (b::byte)" "uint (b::byte) < 256"
  using uint_bounded[of b] by simp_all

lemma shifted_byte_bounds:
  assumes "n \<le> 21"
  shows "push_bit n (uint (b::byte)) < 2 ^ 29" and "0 \<le> push_bit n (uint (b::byte))"
proof -
  have "uint b * 2 ^ n < 2 ^ 8 * 2 ^ 21"
  proof (rule mult_less_le_imp_less)
    show "uint b < 2 ^ 8" using byte_uint_bounds(2)[of b] by simp
    show "(2::int) ^ n \<le> 2 ^ 21" using assms by (intro power_increasing) simp_all
  qed simp_all
  then show "push_bit n (uint b) < 2 ^ 29" by (simp add: push_bit_eq_mult)
  show "0 \<le> push_bit n (uint b)" by simp
qed

lemma uint_shifted_byte:
  assumes "n \<le> 21"
  shows "uint (push_bit n (ucast (b::byte)) :: 32 word) = push_bit n (uint b)"
proof -
  have "uint (push_bit n (ucast b) :: 32 word) = take_bit 32 (push_bit n (uint b))"
    by (simp add: unsigned_push_bit_eq uint_up_ucast is_up)
  also have "\<dots> = push_bit n (uint b)"
    using shifted_byte_bounds[OF assms, of b] by (simp add: take_bit_int_eq_self)
  finally show ?thesis .
qed

lemma sint_below_sign:
  assumes "uint (w :: 32 word) < 2 ^ 31"
  shows "sint w = uint w"
proof -
  have "sint w = signed_take_bit 31 (uint w)" by (simp add: sint_uint)
  also have "\<dots> = uint w"
  proof (rule signed_take_bit_int_eq_self)
    have "- (2 ^ 31) \<le> (0::int)" by simp
    also have "\<dots> \<le> uint w" by simp
    finally show "- (2 ^ 31) \<le> uint w" .
    show "uint w < 2 ^ 31" using assms .
  qed
  finally show ?thesis .
qed

lemma or_shift_disjoint:
  assumes "0 \<le> (x::int)" "x < 2 ^ n"
  shows "push_bit n k OR x = k * 2 ^ n + x"
proof -
  have "push_bit n k AND x = 0"
    using assms
    by (auto simp add: bit_eq_iff bit_simps dest: bit_imp_le_length)
       (metis bit_take_bit_iff take_bit_int_eq_self not_le)
  then have "push_bit n k + x = push_bit n k OR x"
    by (rule disjunctive_add_eq_or)
  then show ?thesis by (simp add: push_bit_eq_mult)
qed

lemma or_below_29:
  assumes "0 \<le> (x::int)" "0 \<le> y" "x < 2 ^ 29" "y < 2 ^ 29"
  shows "0 \<le> x OR y \<and> x OR y < 2 ^ 29"
  using assms OR_upper[of x 29 y] by simp

lemma shiftOr_int:
  "shiftOr b0 b1 b2 b3 =
     push_bit 21 (uint b0) OR push_bit 14 (uint b1) OR push_bit 7 (uint b2) OR uint b3"
proof -
  let ?w = "(push_bit 21 (ucast b0) OR push_bit 14 (ucast b1) OR push_bit 7 (ucast b2) OR ucast b3) :: 32 word"
  let ?k = "push_bit 21 (uint b0) OR push_bit 14 (uint b1) OR push_bit 7 (uint b2) OR uint b3"
  have u: "uint ?w = ?k"
    by (simp add: uint_or uint_shifted_byte uint_up_ucast is_up)
  have b3: "0 \<le> uint b3 \<and> uint b3 < 2 ^ 29"
    using byte_uint_bounds[of b3] by simp
  have b2: "0 \<le> push_bit 7 (uint b2) OR uint b3 \<and> push_bit 7 (uint b2) OR uint b3 < 2 ^ 29"
    using b3 shifted_byte_bounds[of 7 b2] by (intro or_below_29) simp_all
  have b1: "0 \<le> push_bit 14 (uint b1) OR push_bit 7 (uint b2) OR uint b3
          \<and> push_bit 14 (uint b1) OR push_bit 7 (uint b2) OR uint b3 < 2 ^ 29"
    using b2 shifted_byte_bounds[of 14 b1] by (intro or_below_29) simp_all
  have "?k < 2 ^ 29"
    using b1 shifted_byte_bounds[of 21 b0] or_below_29[of "push_bit 21 (uint b0)" "push_bit 14 (uint b1) OR push_bit 7 (uint b2) OR uint b3"] by simp
  then have "uint ?w < 2 ^ 31" using u by simp
  then have "sint ?w = uint ?w" by (rule sint_below_sign)
  then show ?thesis unfolding shiftOr_def using u by simp
qed

lemma shiftOr_low_bytes:
  assumes "b0 < 128" "b1 < 128" "b2 < 128" "b3 < 128"
  shows "shiftOr b0 b1 b2 b3 = synchsafe_value b0 b1 b2 b3"
    and "0 \<le> shiftOr b0 b1 b2 b3" and "shiftOr b0 b1 b2 b3 < 2 ^ 28"
proof -
  have u: "uint b0 < 128" "uint b1 < 128" "uint b2 < 128" "uint b3 < 128"
    using assms by (simp_all add: word_less_def)
  have p: "0 \<le> uint b0" "0 \<le> uint b1" "0 \<le> uint b2" "0 \<le> uint b3" by simp_all
  have l: "low7 b0 = uint b0" "low7 b1 = uint b1" "low7 b2 = uint b2" "low7 b3 = uint b3"
    using u by (simp_all add: low7_def)
  have e3: "push_bit 7 (uint b2) OR uint b3 = uint b2 * 2 ^ 7 + uint b3"
    using u by (intro or_shift_disjoint) simp_all
  have r3: "0 \<le> uint b2 * 2 ^ 7 + uint b3 \<and> uint b2 * 2 ^ 7 + uint b3 < 2 ^ 14"
    using u p by simp
  have e2: "push_bit 14 (uint b1) OR (uint b2 * 2 ^ 7 + uint b3) = uint b1 * 2 ^ 14 + (uint b2 * 2 ^ 7 + uint b3)"
    using r3 by (intro or_shift_disjoint) simp_all
  have r2: "0 \<le> uint b1 * 2 ^ 14 + (uint b2 * 2 ^ 7 + uint b3)
          \<and> uint b1 * 2 ^ 14 + (uint b2 * 2 ^ 7 + uint b3) < 2 ^ 21"
    using u p by simp
  have e1: "push_bit 21 (uint b0) OR (uint b1 * 2 ^ 14 + (uint b2 * 2 ^ 7 + uint b3))
            = uint b0 * 2 ^ 21 + (uint b1 * 2 ^ 14 + (uint b2 * 2 ^ 7 + uint b3))"
    using r2 by (intro or_shift_disjoint) simp_all
  have "shiftOr b0 b1 b2 b3 = uint b0 * 2 ^ 21 + (uint b1 * 2 ^ 14 + (uint b2 * 2 ^ 7 + uint b3))"
    by (simp only: shiftOr_int e3 e2 e1)
  then show "shiftOr b0 b1 b2 b3 = synchsafe_value b0 b1 b2 b3"
    and "0 \<le> shiftOr b0 b1 b2 b3" and "shiftOr b0 b1 b2 b3 < 2 ^ 28"
    using u p by (simp_all add: synchsafe_value_def l)
qed

lemma rd4: "rd [b0, b1, b2, b3] 0 = Inr b0" "rd [b0, b1, b2, b3] 1 = Inr b1"
  "rd [b0, b1, b2, b3] 2 = Inr b2" "rd [b0, b1, b2, b3] 3 = Inr b3"
  by (simp_all add: rd_def)

lemma getUint8_4: "getUint8 [b0, b1, b2, b3] 0 = Inr b0" "getUint8 [b0, b1, b2, b3] 1 = Inr b1"
  "getUint8 [b0, b1, b2, b3] 2 = Inr b2" "getUint8 [b0, b1, b2, b3] 3 = Inr b3"
  by (simp_all add: getUint8_def)

lemma readSynchsafe_4: 
  "readSynchsafeInteger [b0, b1, b2, b3] 0 = Inr (shiftOr b0 b1 b2 b3)"
  "readSynchsafeFromView [b0, b1, b2, b3] 0 = Inr (shiftOr b0 b1 b2 b3)"
  by (simp_all add: readSynchsafeInteger_def readSynchsafeFromView_def rd4 getUint8_4)

text \<open>
  Claim C3, as amended. For every four bytes, \<open>readSynchsafeInteger\<close> and
  \<open>readSynchsafeFromView\<close> return the bitwise or of the bytes shifted left by 21, 14, 7
  and 0 bits, with no masking and no 32-bit wrap-around; when every byte has its high bit
  clear, that is the 28-bit value in which each byte contributes its low 7 bits, most
  significant byte first.
\<close>

theorem synchsafe_unmasked:
  "readSynchsafeInteger [b0, b1, b2, b3] 0
     = Inr (push_bit 21 (uint b0) OR push_bit 14 (uint b1) OR push_bit 7 (uint b2) OR uint b3)
   \<and> readSynchsafeFromView [b0, b1, b2, b3] 0 = readSynchsafeInteger [b0, b1, b2, b3] 0
   \<and> (b0 < 128 \<and> b1 < 128 \<and> b2 < 128 \<and> b3 < 128 \<longrightarrow>
        readSynchsafeInteger [b0, b1, b2, b3] 0 = Inr (synchsafe_value b0 b1 b2 b3)
        \<and> 0 \<le> synchsafe_value b0 b1 b2 b3 \<and> synchsafe_value b0 b1 b2 b3 < 2 ^ 28)"
  using shiftOr_low_bytes[of b0 b1 b2 b3]
  by (simp add: readSynchsafe_4 shiftOr_int)

text \<open>The bytes 0, 0, 1, 17 have their high bits clear and decode to 145.\<close>

theorem synchsafe_unmasked_witness:
  "readSynchsafeInteger [0, 0, 1, 17] 0 = Inr 145 \<and> synchsafe_value 0 0 1 17 = 145
   \<and> (0::byte) < 128 \<and> (1::byte) < 128 \<and> (17::byte) < 128"
  using synchsafe_unmasked[of 0 0 1 17]
  by (simp add: synchsafe_value_def low7_def)

text \<open>
  Claim C3 as stated fails: a byte with its high bit set contributes that bit as well. The
  last byte 128 decodes to 128, where its low 7 bits give 0; the first byte 128 decodes to
  \<open>2 ^ 28\<close>, which is not a 28-bit value.
\<close>

theorem synchsafe_high_bit_counterexample:
  "readSynchsafeInteger [0, 0, 0, 128] 0 = Inr 128 \<and> synchsafe_value 0 0 0 128 = 0
   \<and> readSynchsafeFromView [128, 0, 0, 0] 0 = Inr (2 ^ 28) \<and> synchsafe_value 128 0 0 0 = 0"
  by (simp add: readSynchsafe_4 shiftOr_def synchsafe_value_def low7_def)

section \<open>Seeking\<close>

lemma seekTo_non_finite: "\<not> isFinite v \<Longrightarrow> seekTo s v = s"
  by (simp add: seekTo_def)

lemma seekTo_assigns:
  "isFinite v \<Longrightarrow>
     audio_currentTime (audio (seekTo s v)) = clampedTime s v
     \<and> currentTime (seekTo s v) = clampedTime s v"
  by (simp add: seekTo_def Let_def)

text \<open>
  The clamp holds whenever the requested time is not negative, or a positive duration is
  known.
\<close>

lemma clampedTime_within:
  assumes "v = Fin x" "duration s = Fin d" "0 \<le> d"
    and "0 \<le> x \<or> 0 < d
         \<or> (isFinite (audio_duration (audio s)) \<and> js_less (Fin 0) (audio_duration (audio s)))"
  shows "withinDuration (clampedTime s v) (effectiveDuration s v)"
  using assms
  by (cases "audio_duration (audio s)")
     (auto simp add: clampedTime_def effectiveDuration_def withinDuration_def Math_max_def
        Math_min_def truthy_def Let_def)

text \<open>
  Claim C7, at the input where the code departs from it. A non-finite request leaves the
  session as it is. In a session that knows no duration yet (its own is 0, the platform's
  is NaN), the finite request \<open>-5\<close> is handed to the playback handle unclamped: the
  effective duration is \<open>max(0, -5) = 0\<close>, which \<open>maxBoundary || value\<close> replaces by the
  request itself, so the time assigned is \<open>min(max(-5, 0), -5) = -5\<close>, outside \<open>[0, 0]\<close>.
\<close>

theorem seekTo_negative_not_clamped:
  "seekTo (new_app True) NaN = new_app True
   \<and> seekTo (new_app True) PosInf = new_app True
   \<and> audio_currentTime (audio (seekTo (new_app True) (Fin (- 5)))) = Fin (- 5)
   \<and> currentTime (seekTo (new_app True) (Fin (- 5))) = Fin (- 5)
   \<and> effectiveDuration (new_app True) (Fin (- 5)) = Fin 0
   \<and> \<not> withinDuration (audio_currentTime (audio (seekTo (new_app True) (Fin (- 5)))))
          (effectiveDuration (new_app True) (Fin (- 5)))"
  by (simp add: seekTo_def clampedTime_def effectiveDuration_def withinDuration_def
      Math_max_def Math_min_def truthy_def new_app_def new_audio_def Let_def)

section \<open>The metadata extractor never reads out of range\<close>

lemma rd_in_range: "0 \<le> i \<Longrightarrow> i < int (length xs) \<Longrightarrow> rd xs i = Inr (xs ! nat i)"
  by (simp add: rd_def)

lemma getUint8_in_range: "0 \<le> i \<Longrightarrow> i < int (length xs) \<Longrightarrow> getUint8 xs i = Inr (xs ! nat i)"
  by (simp add: getUint8_def)

lemma andThen_no_fault:
  assumes "\<not> isl m" and "\<And>x. m = Inr x \<Longrightarrow> \<not> isl (f x)"
  shows "\<not> isl (andThen m f)"
  using assms by (cases m) simp_all

lemma shiftOr_nonneg: "0 \<le> shiftOr b0 b1 b2 b3"
  by (simp add: shiftOr_int)

lemma getUint32_no_fault:
  assumes "0 \<le> i" "i + 4 \<le> int (length v)"
  shows "\<exists>n. getUint32 v i = Inr n \<and> 0 \<le> n"
  using assms by (simp add: getUint32_def)

lemma readSynchsafeFromView_no_fault:
  assumes "0 \<le> i"
  shows "\<exists>n. readSynchsafeFromView v i = Inr n \<and> 0 \<le> n"
  using assms
  by (simp add: readSynchsafeFromView_def getUint8_in_range shiftOr_nonneg)

lemma readSynchsafeInteger_no_fault:
  assumes "0 \<le> i"
  shows "\<exists>n. readSynchsafeInteger v i = Inr n \<and> 0 \<le> n"
  using assms
  by (simp add: readSynchsafeInteger_def rd_in_range shiftOr_nonneg)

lemma decodeFrameId_no_fault:
  assumes "0 \<le> i"
  shows "\<exists>s. decodeFrameId v i = Inr s"
  using assms
  by (simp add: decodeFrameId_def rd_in_range Let_def)

lemma declaredFrameSize_no_fault:
  assumes "0 \<le> i" "i + 10 \<le> int (length v)"
  shows "\<exists>n. declaredFrameSize ver v i = Inr n \<and> 0 \<le> n"
  using assms readSynchsafeFromView_no_fault[of "i + 4" v] getUint32_no_fault[of "i + 4" v]
  by (simp add: declaredFrameSize_def)

lemma skipToNull_no_fault:
  "0 \<le> offset \<Longrightarrow> end \<le> int (length data) \<Longrightarrow>
     \<exists>r. skipToNull data offset end = Inr r \<and> offset \<le> r"
proof (induction data offset "end" rule: skipToNull.induct)
  case (1 data offset "end")
  show ?case
  proof (cases "offset < end")
    case False
    then show ?thesis by (subst skipToNull.simps) simp
  next
    case True
    with 1 have r: "rd data offset = Inr (data ! nat offset)" by (simp add: rd_in_range)
    show ?thesis
    proof (cases "data ! nat offset = 0")
      case True
      with r \<open>offset < end\<close> show ?thesis by (subst skipToNull.simps) simp
    next
      case False
      with 1 r \<open>offset < end\<close> obtain q where "skipToNull data (offset + 1) end = Inr q" "offset + 1 \<le> q"
        by fastforce
      with False r \<open>offset < end\<close> show ?thesis by (subst skipToNull.simps) simp
    qed
  qed
qed

lemma skipToNullPair_no_fault:
  "0 \<le> offset \<Longrightarrow> end \<le> int (length data) \<Longrightarrow>
     \<exists>r. skipToNullPair data offset end = Inr r"
proof (induction data offset "end" rule: skipToNullPair.induct)
  case (1 data offset "end")
  show ?case
  proof (cases "offset + 1 < end")
    case False
    with 1 show ?thesis by (subst skipToNullPair.simps) simp
  next
    case True
    with 1 have r: "rd data offset = Inr (data ! nat offset)"
      "rd data (offset + 1) = Inr (data ! nat (offset + 1))" by (simp_all add: rd_in_range)
    have ih: "\<exists>q. skipToNullPair data (offset + 2) end = Inr q"
      if "\<not> (data ! nat offset = 0 \<and> data ! nat (offset + 1) = 0)"
    proof (cases "data ! nat offset = 0")
      case True
      with that have "data ! nat (offset + 1) \<noteq> 0" by simp
      from 1(1)[OF \<open>offset + 1 < end\<close> r(1) True r(2) this] 1(3,4) show ?thesis by simp
    next
      case False
      from 1(2)[OF \<open>offset + 1 < end\<close> r(1) False] 1(3,4) show ?thesis by simp
    qed
    show ?thesis
      using True r ih by (subst skipToNullPair.simps) auto
  qed
qed

lemma advancePastEncodedString_no_fault:
  assumes "0 \<le> offset" "end \<le> int (length data)"
  shows "\<exists>r. advancePastEncodedString data offset end enc = Inr r"
proof -
  obtain a where a: "skipToNull data offset end = Inr a" "offset \<le> a"
    using skipToNull_no_fault[OF assms] by blast
  obtain b where b: "skipToNullPair data offset end = Inr b"
    using skipToNullPair_no_fault[OF assms] by blast
  show ?thesis using a b by (simp add: advancePastEncodedString_def)
qed

lemma indexOfAux_range: "indexOfAux xs v k = - 1 \<or> k \<le> indexOfAux xs v k"
proof (induction xs arbitrary: k)
  case Nil
  then show ?case by simp
next
  case (Cons x xs)
  show ?case using Cons[of "k + 1"] by auto
qed

lemma indexOf_range: "0 \<le> k \<Longrightarrow> indexOf xs v k = - 1 \<or> k \<le> indexOf xs v k"
  using indexOfAux_range[of "drop (nat k) xs" v k] by (simp add: indexOf_def)


lemma parseApicFrame_no_fault: "\<exists>r. parseApicFrame dec frameData = Inr r"
proof (cases "int (length frameData) < 4")
  case True
  then show ?thesis by (simp add: parseApicFrame_def)
next
  case False
  then have r0: "rd frameData 0 = Inr (frameData ! 0)" by (auto simp add: rd_def)
  let ?t = "indexOf frameData 0 1"
  have t: "?t = - 1 \<or> 1 \<le> ?t" using indexOf_range[of 1 frameData 0] by simp
  obtain c where c: "advancePastEncodedString frameData (?t + 1 + 1) (int (length frameData)) (uint (frameData ! 0)) = Inr c"
    if "1 \<le> ?t"
    using advancePastEncodedString_no_fault[of "?t + 1 + 1" "int (length frameData)" frameData]
    by (metis add_nonneg_nonneg le_numeral_extra(3) order_refl zero_le_one order_trans)
  show ?thesis
    using False r0 t c by (auto simp add: parseApicFrame_def Let_def)
qed

lemma frameWalk_no_fault:
  "0 \<le> offset \<Longrightarrow> \<exists>r. frameWalk dec ver tag offset = Inr r"
proof (induction dec ver tag offset rule: frameWalk.induct)
  case (1 dec ver tag offset)
  show ?case
  proof (cases "offset + 10 \<le> int (length tag)")
    case False
    then show ?thesis by (subst frameWalk.simps) simp
  next
    case True
    with 1(3) have r: "rd tag offset = Inr (tag ! nat offset)" by (simp add: rd_in_range)
    obtain fid where fid: "decodeFrameId tag offset = Inr fid"
      using decodeFrameId_no_fault[OF 1(3)] by blast
    obtain n where n: "declaredFrameSize ver tag offset = Inr n" "0 \<le> n"
      using declaredFrameSize_no_fault[OF 1(3) True] by blast
    obtain p where p: "parseApicFrame dec (subarray tag (offset + 10) (offset + 10 + n)) = Inr p"
      using parseApicFrame_no_fault by blast
    have next_ok: "\<exists>r. frameWalk dec ver tag (offset + 10 + n) = Inr r"
      if "tag ! nat offset \<noteq> 0" "fid \<noteq> []" "\<not> (n = 0 \<or> n < 1)" "\<not> offset + 10 + n > int (length tag)"
        "fid = ''APIC'' \<longrightarrow> p = None"
    proof (cases "fid = ''APIC''")
      case True
      with that have "p = None" by simp
      from 1(1)[OF \<open>offset + 10 \<le> int (length tag)\<close> r that(1) fid that(2) n(1) that(3,4) True p[unfolded \<open>p = None\<close>]]
      show ?thesis using 1(3) n(2) by simp
    next
      case False
      from 1(2)[OF \<open>offset + 10 \<le> int (length tag)\<close> r that(1) fid that(2) n(1) that(3,4) False]
      show ?thesis using 1(3) n(2) by simp
    qed
    show ?thesis
      using True r fid n p next_ok
      by (subst frameWalk.simps) (auto split: option.splits)
  qed
qed

lemma extensionSkip_no_fault:
  "\<exists>off. (if flags AND 0x40 \<noteq> (0::byte) \<and> int (length tag) \<ge> 4
           then (if version = (3::byte) \<and> int (length tag) \<ge> 4
                 then andThen (getUint32 tag 0)
                        (\<lambda>extSize. Inr (min (extSize + 4) (int (length tag))))
                 else if version = 4
                 then andThen (readSynchsafeFromView tag 0)
                        (\<lambda>extSize. Inr (min extSize (int (length tag))))
                 else Inr 0)
           else Inr 0) = Inr off \<and> 0 \<le> off"
proof -
  obtain a where a: "readSynchsafeFromView tag 0 = Inr a" "0 \<le> a"
    using readSynchsafeFromView_no_fault[of 0 tag] by auto
  obtain b where b: "getUint32 tag 0 = Inr b" "0 \<le> b" if "4 \<le> int (length tag)"
    using getUint32_no_fault[of 0 tag] by (metis add_0 order_refl that)
  show ?thesis using a b by auto
qed

lemma slice_header:
  "slice_bytes ([h0, h1, h2, h3, h4, h5, h6, h7, h8, h9] @ body) 0 10 = [h0, h1, h2, h3, h4, h5, h6, h7, h8, h9]"
  by (simp add: slice_bytes_def relIndex_def Let_def)

lemma slice_body:
  assumes "0 \<le> n"
  shows "slice_bytes ([h0, h1, h2, h3, h4, h5, h6, h7, h8, h9] @ body) 10 (10 + n) = take (nat n) body"
  using assms by (simp add: slice_bytes_def relIndex_def Let_def min_def)

lemma rd_header:
  "rd [h0, h1, h2, h3, h4, h5, h6, h7, h8, h9] 0 = Inr h0"
  "rd [h0, h1, h2, h3, h4, h5, h6, h7, h8, h9] 1 = Inr h1"
  "rd [h0, h1, h2, h3, h4, h5, h6, h7, h8, h9] 2 = Inr h2"
  "rd [h0, h1, h2, h3, h4, h5, h6, h7, h8, h9] 3 = Inr h3"
  "rd [h0, h1, h2, h3, h4, h5, h6, h7, h8, h9] 5 = Inr h5"
  "readSynchsafeInteger [h0, h1, h2, h3, h4, h5, h6, h7, h8, h9] 6 = Inr (shiftOr h6 h7 h8 h9)"
  by (simp_all add: rd_def readSynchsafeInteger_def)

lemma take_min_length: "take (min (length xs) n) xs = take n xs"
  by (simp add: min_def)

lemma extract_is_walk:
  assumes "3 \<le> v" "shiftOr s0 s1 s2 s3 \<noteq> 0" "body \<noteq> []"
  shows "extractArtworkUrl dec ([0x49, 0x44, 0x33, v, r, 0, s0, s1, s2, s3] @ body)
         = frameWalk dec (uint v) (take (nat (shiftOr s0 s1 s2 s3)) body) 0"
proof -
  have pos: "0 < shiftOr s0 s1 s2 s3"
    using assms(2) shiftOr_nonneg[of s0 s1 s2 s3] by simp
  have ne: "take (nat (shiftOr s0 s1 s2 s3)) body \<noteq> []"
    using pos assms(3) by (cases body) (simp_all add: take_Cons')
  have v: "\<not> v < 3" using assms(1) by simp
  show ?thesis
    unfolding extractArtworkUrl_def
    using pos ne v
    by (simp add: slice_header slice_body rd_header Let_def take_min_length del: append.simps)
qed

lemma tagWalk_no_fault:
  "\<exists>r. andThen
         (if flags AND 0x40 \<noteq> (0::byte) \<and> int (length tag) \<ge> 4
          then (if version = (3::byte) \<and> int (length tag) \<ge> 4
                then andThen (getUint32 tag 0)
                       (\<lambda>extSize. Inr (min (extSize + 4) (int (length tag))))
                else if version = 4
                then andThen (readSynchsafeFromView tag 0)
                       (\<lambda>extSize. Inr (min extSize (int (length tag))))
                else Inr 0)
          else Inr 0)
         (\<lambda>offset. frameWalk dec ver tag offset) = Inr r"
proof -
  obtain off where "(if flags AND 0x40 \<noteq> (0::byte) \<and> int (length tag) \<ge> 4
          then (if version = (3::byte) \<and> int (length tag) \<ge> 4
                then andThen (getUint32 tag 0)
                       (\<lambda>extSize. Inr (min (extSize + 4) (int (length tag))))
                else if version = 4
                then andThen (readSynchsafeFromView tag 0)
                       (\<lambda>extSize. Inr (min extSize (int (length tag))))
                else Inr 0)
          else Inr 0) = Inr off" "0 \<le> off"
    using extensionSkip_no_fault[of flags tag version] by blast
  then show ?thesis using frameWalk_no_fault[of off dec ver tag] by (simp only: andThen.simps)
qed

lemma extractArtworkUrl_no_fault: "\<exists>r. extractArtworkUrl dec file = Inr r"
proof (cases "length (slice_bytes file 0 10) < 10")
  case True
  then show ?thesis by (simp add: extractArtworkUrl_def Let_def)
next
  case False
  let ?h = "slice_bytes file 0 10"
  have r: "rd ?h 0 = Inr (?h ! 0)" "rd ?h 1 = Inr (?h ! 1)" "rd ?h 2 = Inr (?h ! 2)"
    "rd ?h 3 = Inr (?h ! 3)" "rd ?h 5 = Inr (?h ! 5)"
    using False by (auto simp add: rd_def)
  obtain n where n: "readSynchsafeInteger ?h 6 = Inr n"
    using readSynchsafeInteger_no_fault[of 6 ?h] by auto
  show ?thesis
  proof (cases "?h ! 0 \<noteq> 0x49 \<or> ?h ! 1 \<noteq> 0x44 \<or> ?h ! 2 \<noteq> 0x33 \<or> ?h ! 3 < 3 \<or> n = 0
                \<or> length (slice_bytes file 10 (10 + n)) = 0")
    case True
    then show ?thesis
      unfolding extractArtworkUrl_def Let_def using False
      by (simp only: r n andThen.simps if_False) auto
  next
    case c: False
    show ?thesis
      unfolding extractArtworkUrl_def Let_def using False c
      by (simp only: r n andThen.simps if_False de_Morgan_disj not_not refl if_True simp_thms
          tagWalk_no_fault)
  qed
qed

lemma frameWalk_truncated:
  assumes "0 \<le> offset" "offset + 10 \<le> int (length tag)"
    and "declaredFrameSize ver tag offset = Inr n"
    and "n < 1 \<or> offset + 10 + n > int (length tag)"
  shows "frameWalk dec ver tag offset = Inr None"
proof -
  have r: "rd tag offset = Inr (tag ! nat offset)" using assms by (simp add: rd_in_range)
  obtain fid where fid: "decodeFrameId tag offset = Inr fid"
    using decodeFrameId_no_fault[OF assms(1)] by blast
  show ?thesis
    using assms r fid by (subst frameWalk.simps) auto
qed

text \<open>
  Claim C5. Every read of the extractor is checked in this model, and none of them ever
  fails: neither the extraction of a whole file nor a frame walk from any offset that is
  not negative reads outside the array it is given. A frame whose declared size is below
  1, or whose data would end beyond the tag body, ends the walk with no artwork; so does
  the extraction of a file whose first frame is such a frame.
\<close>

theorem frame_walk_in_bounds:
  "(\<exists>r. extractArtworkUrl dec file = Inr r)
   \<and> (0 \<le> offset \<longrightarrow> (\<exists>r. frameWalk dec version tag offset = Inr r))
   \<and> (0 \<le> offset \<and> offset + 10 \<le> int (length tag)
        \<and> declaredFrameSize version tag offset = Inr n
        \<and> (n < 1 \<or> int (length tag) < offset + 10 + n)
      \<longrightarrow> frameWalk dec version tag offset = Inr None)
   \<and> (3 \<le> v \<and> shiftOr s0 s1 s2 s3 \<noteq> 0
        \<and> 10 \<le> int (length (take (nat (shiftOr s0 s1 s2 s3)) body))
        \<and> declaredFrameSize (uint v) (take (nat (shiftOr s0 s1 s2 s3)) body) 0 = Inr m
        \<and> (m < 1 \<or> int (length (take (nat (shiftOr s0 s1 s2 s3)) body)) < 10 + m)
      \<longrightarrow> extractArtworkUrl dec ([0x49, 0x44, 0x33, v, r, 0, s0, s1, s2, s3] @ body) = Inr None)"
proof (intro conjI impI)
  show "\<exists>r. extractArtworkUrl dec file = Inr r" by (rule extractArtworkUrl_no_fault)
  show "\<exists>r. frameWalk dec version tag offset = Inr r" if "0 \<le> offset"
    using that by (rule frameWalk_no_fault)
  show "frameWalk dec version tag offset = Inr None"
    if "0 \<le> offset \<and> offset + 10 \<le> int (length tag)
        \<and> declaredFrameSize version tag offset = Inr n
        \<and> (n < 1 \<or> int (length tag) < offset + 10 + n)"
    using that frameWalk_truncated[of offset tag version n dec] by simp
  show "extractArtworkUrl dec ([0x49, 0x44, 0x33, v, r, 0, s0, s1, s2, s3] @ body) = Inr None"
    if h: "3 \<le> v \<and> shiftOr s0 s1 s2 s3 \<noteq> 0
        \<and> 10 \<le> int (length (take (nat (shiftOr s0 s1 s2 s3)) body))
        \<and> declaredFrameSize (uint v) (take (nat (shiftOr s0 s1 s2 s3)) body) 0 = Inr m
        \<and> (m < 1 \<or> int (length (take (nat (shiftOr s0 s1 s2 s3)) body)) < 10 + m)"
  proof -
    from h have "body \<noteq> []" by auto
    with h have "extractArtworkUrl dec ([0x49, 0x44, 0x33, v, r, 0, s0, s1, s2, s3] @ body)
         = frameWalk dec (uint v) (take (nat (shiftOr s0 s1 s2 s3)) body) 0"
      by (intro extract_is_walk) simp_all
    also have "\<dots> = Inr None"
      using h frameWalk_truncated[of 0 "take (nat (shiftOr s0 s1 s2 s3)) body" "uint v" m dec]
      by simp
    finally show ?thesis .
  qed
qed

text \<open>
  A 13-byte tag body holding the header of a picture frame that declares 100 bytes of
  data and has 3: the walk, and the extraction of the file it makes, end with no artwork.
\<close>

theorem frame_walk_in_bounds_witness:
  "declaredFrameSize 3 [0x41, 0x50, 0x49, 0x43, 0, 0, 0, 100, 0, 0, 1, 2, 3] 0 = Inr 100
   \<and> frameWalk True 3 [0x41, 0x50, 0x49, 0x43, 0, 0, 0, 100, 0, 0, 1, 2, 3] 0 = Inr None
   \<and> extractArtworkUrl True
        ([0x49, 0x44, 0x33, 3, 0, 0, 0, 0, 0, 13]
         @ [0x41, 0x50, 0x49, 0x43, 0, 0, 0, 100, 0, 0, 1, 2, 3]) = Inr None"
proof -
  have s: "shiftOr 0 0 0 13 = 13" by (simp add: shiftOr_def)
  have d: "declaredFrameSize 3 [0x41, 0x50, 0x49, 0x43, 0, 0, 0, 100, 0, 0, 1, 2, 3] 0 = Inr 100"
    by (simp add: declaredFrameSize_def getUint32_def)
  show ?thesis
    using frame_walk_in_bounds[of True "[]" 0 3 "[0x41, 0x50, 0x49, 0x43, 0, 0, 0, 100, 0, 0, 1, 2, 3]"
        100 3 0 0 0 13 "[0x41, 0x50, 0x49, 0x43, 0, 0, 0, 100, 0, 0, 1, 2, 3]" 100 0] s d
    by simp
qed

section \<open>The picture frame\<close>

lemma indexOfAux_absent: "v \<notin> set xs \<Longrightarrow> indexOfAux xs v k = - 1"
  by (induction xs arbitrary: k) auto

lemma indexOfAux_first: "v \<notin> set xs \<Longrightarrow> indexOfAux (xs @ v # ys) v k = k + int (length xs)"
  by (induction xs arbitrary: k) auto

lemma indexOf_mime:
  assumes "0 \<notin> set m"
  shows "indexOf (enc # m @ 0 # rest) 0 1 = 1 + int (length m)"
  using indexOfAux_first[OF assms, of rest 1] by (simp add: indexOf_def)

lemma indexOf_no_terminator:
  assumes "0 \<notin> set rest"
  shows "indexOf (enc # rest) 0 1 = - 1"
  using indexOfAux_absent[OF assms, of 1] by (simp add: indexOf_def)

lemma subarray_segment:
  "subarray (pre @ xs @ post) (int (length pre)) (int (length pre) + int (length xs)) = xs"
  by (simp add: subarray_def relIndex_def Let_def min_def)

lemma subarray_suffix:
  "subarray (pre @ post) (int (length pre)) (int (length pre) + int (length post)) = post"
  using subarray_segment[of pre post "[]"] by simp

lemma rd_after_prefix:
  "rd (pre @ x # post) (int (length pre)) = Inr x"
  "rd (pre @ x # y # post) (int (length pre) + 1) = Inr y"
proof -
  show "rd (pre @ x # post) (int (length pre)) = Inr x" by (simp add: rd_def)
  have "nat (int (length pre) + 1) = Suc (length pre)" by simp
  then show "rd (pre @ x # y # post) (int (length pre) + 1) = Inr y"
    by (simp add: rd_def nth_append)
qed

lemma skipToNull_stops:
  assumes "0 \<notin> set d"
  shows "skipToNull (pre @ d @ 0 # post) (int (length pre)) (int (length (pre @ d @ 0 # post)))
         = Inr (int (length pre) + int (length d))"
  using assms
proof (induction d arbitrary: pre)
  case Nil
  show ?case by (subst skipToNull.simps) (simp add: rd_after_prefix)
next
  case (Cons x d)
  have "skipToNull ((pre @ [x]) @ d @ 0 # post) (int (length (pre @ [x])))
          (int (length ((pre @ [x]) @ d @ 0 # post)))
        = Inr (int (length (pre @ [x])) + int (length d))"
    using Cons.prems by (intro Cons.IH) simp
  then have ih: "skipToNull (pre @ x # d @ 0 # post) (int (length pre) + 1)
          (int (length (pre @ x # d @ 0 # post))) = Inr (int (length pre) + 1 + int (length d))"
    by (simp add: add.commute)
  have "rd (pre @ x # d @ 0 # post) (int (length pre)) = Inr x" by (rule rd_after_prefix)
  moreover have "x \<noteq> 0" using Cons.prems by auto
  ultimately show ?case using ih by (subst skipToNull.simps) simp
qed

lemma skipToNullPair_stops:
  assumes "nullPairFree d"
  shows "skipToNullPair (pre @ d @ 0 # 0 # post) (int (length pre))
           (int (length (pre @ d @ 0 # 0 # post)))
         = Inr (int (length pre) + int (length d) + 2)"
  using assms
proof (induction d arbitrary: pre rule: nullPairFree.induct)
  case 1
  have "rd (pre @ 0 # 0 # post) (int (length pre)) = Inr 0"
    "rd (pre @ 0 # 0 # post) (int (length pre) + 1) = Inr 0"
    by (rule rd_after_prefix)+
  then show ?case by (subst skipToNullPair.simps) simp
next
  case (2 x)
  then show ?case by simp
next
  case (3 x y r)
  have "skipToNullPair ((pre @ [x, y]) @ r @ 0 # 0 # post) (int (length (pre @ [x, y])))
          (int (length ((pre @ [x, y]) @ r @ 0 # 0 # post)))
        = Inr (int (length (pre @ [x, y])) + int (length r) + 2)"
    using "3.prems" by (intro "3.IH") simp
  then have ih: "skipToNullPair (pre @ x # y # r @ 0 # 0 # post) (int (length pre) + 2)
          (int (length (pre @ x # y # r @ 0 # 0 # post)))
         = Inr (int (length pre) + 2 + int (length r) + 2)"
    by (simp add: add.commute)
  have rd: "rd (pre @ x # y # r @ 0 # 0 # post) (int (length pre)) = Inr x"
    "rd (pre @ x # y # r @ 0 # 0 # post) (int (length pre) + 1) = Inr y"
    by (rule rd_after_prefix)+
  have "\<not> (x = 0 \<and> y = 0)" using "3.prems" by simp
  then show ?case using ih rd by (subst skipToNullPair.simps) auto
qed

lemma uint_byte_eq: "uint (e::byte) = 0 \<longleftrightarrow> e = 0" "uint (e::byte) = 3 \<longleftrightarrow> e = 3"
  by (simp_all add: word_uint_eq_iff)

lemma mimeTypeOf_nonempty: "mimeTypeOf dec m \<noteq> []"
  by (simp add: mimeTypeOf_def toLowerCase_def Let_def)

lemma mimeTypeOf_default: "mimeTypeOf dec [] = ''image/jpeg''" "mimeTypeOf False m = ''image/jpeg''"
  by (simp_all add: mimeTypeOf_def Let_def trim_def decodeLatin1_def) code_simp+

lemma advance_single:
  assumes "enc = 0 \<or> enc = 3" "0 \<notin> set d"
  shows "advancePastEncodedString (pre @ d @ 0 # img) (int (length pre))
           (int (length (pre @ d @ 0 # img))) enc
         = Inr (int (length pre) + int (length d) + 1)"
  using assms skipToNull_stops[of d pre img]
  by (auto simp add: advancePastEncodedString_def)

lemma advance_pair:
  assumes "enc \<noteq> 0" "enc \<noteq> 3" "nullPairFree d"
  shows "advancePastEncodedString (pre @ d @ 0 # 0 # img) (int (length pre))
           (int (length (pre @ d @ 0 # 0 # img))) enc
         = Inr (int (length pre) + int (length d) + 2)"
  using assms skipToNullPair_stops[of d pre img]
  by (auto simp add: advancePastEncodedString_def)

lemma parseApicFrame_layout:
  assumes m: "0 \<notin> set m" and img: "img \<noteq> []"
    and d: "if enc = 0 \<or> enc = 3 then 0 \<notin> set d \<and> t = [0] else nullPairFree d \<and> t = [0, 0]"
  shows "parseApicFrame dec (enc # m @ 0 # p # d @ t @ img)
         = Inr (Some \<lparr>mime = mimeTypeOf dec m, payload = img\<rparr>)"
proof -
  let ?data = "enc # m @ 0 # p # d @ t @ img"
  let ?pre = "enc # m @ [0, p]"
  have shape: "?data = ?pre @ d @ t @ img" by simp
  have tl: "length t = (if enc = 0 \<or> enc = 3 then 1 else 2)" using d by (auto split: if_splits)
  have len: "int (length ?data) = int (length m) + int (length d) + int (length t) + int (length img) + 3"
    by simp
  have imgl: "0 < int (length img)" using img by simp
  have r0: "rd ?data 0 = Inr enc" by (simp add: rd_def)
  have ix: "indexOf ?data 0 1 = 1 + int (length m)" using m by (rule indexOf_mime)
  have mb: "subarray ?data 1 (1 + int (length m)) = m"
    using subarray_segment[of "[enc]" m "0 # p # d @ t @ img"] by simp
  have adv: "advancePastEncodedString ?data (1 + int (length m) + 1 + 1) (int (length ?data)) (uint enc)
             = Inr (int (length ?pre) + int (length d) + int (length t))"
  proof (cases "enc = 0 \<or> enc = 3")
    case True
    with d have "0 \<notin> set d" "t = [0]" by simp_all
    moreover have "uint enc = 0 \<or> uint enc = 3" using True by auto
    ultimately show ?thesis
      using advance_single[of "uint enc" d ?pre img] by (simp add: add.commute add.left_commute)
  next
    case False
    with d have "nullPairFree d" "t = [0, 0]" by simp_all
    moreover have "uint enc \<noteq> 0" "uint enc \<noteq> 3" using False by (simp_all add: uint_byte_eq)
    ultimately show ?thesis
      using advance_pair[of "uint enc" d ?pre img] by (simp add: add.commute add.left_commute)
  qed
  have pl: "subarray ?data (int (length ?pre) + int (length d) + int (length t)) (int (length ?data)) = img"
    using subarray_suffix[of "?pre @ d @ t" img] by (simp add: add.commute add.left_commute)
  have c1: "\<not> int (length ?data) < 4" using tl imgl by (simp split: if_splits)
  have c2: "\<not> 1 + int (length m) + 1 \<ge> int (length ?data)" using tl imgl by (simp split: if_splits)
  have c3: "\<not> int (length ?pre) + int (length d) + int (length t) \<ge> int (length ?data)"
    using imgl by simp
  have c4: "1 + int (length m) \<noteq> - 1" by simp
  show ?thesis
    unfolding parseApicFrame_def Let_def
    by (simp only: c1 c2 c3 c4 r0 ix mb adv pl andThen.simps if_False img mimeTypeOf_nonempty
        if_True not_False_eq_True)
qed

lemma parseApicFrame_unterminated:
  assumes "0 \<notin> set rest"
  shows "parseApicFrame dec (enc # rest) = Inr None"
proof (cases "int (length (enc # rest)) < 4")
  case True
  then show ?thesis by (simp add: parseApicFrame_def)
next
  case False
  have "rd (enc # rest) 0 = Inr enc" by (simp add: rd_def)
  then show ?thesis
    using False indexOf_no_terminator[OF assms, of enc]
    by (simp add: parseApicFrame_def Let_def)
qed

text \<open>
  Claim C4, as amended. In a picture frame, the MIME string that starts at byte 1 ends at
  the first null byte, whatever the text encoding; the picture-type byte follows; the
  description ends at a single null byte for the encodings 0 and 3 and at a null byte pair
  for every other encoding; the bytes that remain are the payload. The MIME type is the
  trimmed, lower-cased Latin-1 reading of the MIME string, and \<open>image/jpeg\<close> when the
  string is empty. A frame with no null byte after byte 0 yields no image.
\<close>

theorem picture_frame_layout:
  "(0 \<notin> set m \<and> img \<noteq> []
      \<and> (if enc = 0 \<or> enc = 3 then 0 \<notin> set d \<and> t = [0] else nullPairFree d \<and> t = [0, 0])
    \<longrightarrow> parseApicFrame dec (enc # m @ 0 # p # d @ t @ img)
        = Inr (Some \<lparr>mime = mimeTypeOf dec m, payload = img\<rparr>))
   \<and> mimeTypeOf dec [] = ''image/jpeg''
   \<and> (0 \<notin> set rest \<longrightarrow> parseApicFrame dec (enc # rest) = Inr None)"
  using parseApicFrame_layout[of m img enc d t dec p] parseApicFrame_unterminated[of rest dec enc]
    mimeTypeOf_default(1)[of dec]
  by blast

text \<open>
  A frame in encoding 1: MIME string \<open>im\<close> ended by one null byte, picture type 3, the
  description \<open>A\<close> in two bytes ended by a null pair, two payload bytes. And a frame
  without any null byte.
\<close>

theorem picture_frame_layout_witness:
  "parseApicFrame True [1, 0x69, 0x6D, 0, 3, 0x41, 0, 0, 0, 9, 9]
     = Inr (Some \<lparr>mime = ''im'', payload = [9, 9]\<rparr>)
   \<and> parseApicFrame True [1, 1, 2, 3, 4] = Inr None"
proof -
  have mt: "mimeTypeOf True [0x69, 0x6D] = ''im''" by code_simp
  show ?thesis
    using picture_frame_layout[of "[0x69, 0x6D]" "[9, 9]" 1 "[0x41, 0]" "[0, 0]" True 3 "[1, 2, 3, 4]"]
    by (simp add: mt)
qed

text \<open>
  Claim C4 as stated fails for the 2-byte encodings. In this frame of encoding 1 the MIME
  string \<open>im\<close> and the empty description are each ended by a null pair. Read as the claim
  says, it holds the payload 9, 9. The code ends the MIME string at the first null byte,
  takes the second for the picture type, finds no null pair after it and returns no image.
\<close>

theorem picture_frame_counterexample:
  "parseApicFrame True [1, 0x69, 0x6D, 0, 0, 3, 0, 0, 9, 9] = Inr None
   \<and> parseApicFrame_as_claimed True [1, 0x69, 0x6D, 0, 0, 3, 0, 0, 9, 9]
       = Inr (Some \<lparr>mime = ''im'', payload = [9, 9]\<rparr>)"
  by code_simp

section \<open>Extracting a PNG picture\<close>

lemma apic_frame_id:
  "decodeFrameId (0x41 # 0x50 # 0x49 # 0x43 # rest) 0 = Inr ''APIC''"
proof -
  have "map fromCharCode [0x41, 0x50, 0x49, 0x43] = ''APIC''" by code_simp
  moreover have "list_all isUpperOrDigit ''APIC''" by code_simp
  ultimately show ?thesis by (simp add: decodeFrameId_def rd_def Let_def)
qed

lemma png_mime_type:
  "mimeTypeOf True [0x69, 0x6D, 0x61, 0x67, 0x65, 0x2F, 0x70, 0x6E, 0x67] = ''image/png''"
  by code_simp

lemma png_frame_walk:
  "frameWalk dec 3
     ([0x41, 0x50, 0x49, 0x43, 0, 0, 0, 17, f0, f1]
      @ [0, 0x69, 0x6D, 0x61, 0x67, 0x65, 0x2F, 0x70, 0x6E, 0x67, 0, p, 0, i0, i1, i2, i3]) 0
   = Inr (Some \<lparr>mime = mimeTypeOf dec [0x69, 0x6D, 0x61, 0x67, 0x65, 0x2F, 0x70, 0x6E, 0x67],
                  payload = [i0, i1, i2, i3]\<rparr>)"
proof -
  let ?frame = "[0, 0x69, 0x6D, 0x61, 0x67, 0x65, 0x2F, 0x70, 0x6E, 0x67, 0, p, 0, i0, i1, i2, i3]"
  let ?tag = "[0x41, 0x50, 0x49, 0x43, 0, 0, 0, 17, f0, f1] @ ?frame"
  have r: "rd ?tag 0 = Inr 0x41" by (simp add: rd_def)
  have fid: "decodeFrameId ?tag 0 = Inr ''APIC''" using apic_frame_id by simp
  have sz: "declaredFrameSize 3 ?tag 0 = Inr 17" by (simp add: declaredFrameSize_def getUint32_def)
  have sub: "subarray ?tag 10 27 = ?frame"
    using subarray_suffix[of "[0x41, 0x50, 0x49, 0x43, 0, 0, 0, 17, f0, f1]" ?frame] by simp
  have "parseApicFrame dec (0 # [0x69, 0x6D, 0x61, 0x67, 0x65, 0x2F, 0x70, 0x6E, 0x67] @ 0 # p # [] @ [0] @ [i0, i1, i2, i3])
        = Inr (Some \<lparr>mime = mimeTypeOf dec [0x69, 0x6D, 0x61, 0x67, 0x65, 0x2F, 0x70, 0x6E, 0x67],
                        payload = [i0, i1, i2, i3]\<rparr>)"
    by (rule parseApicFrame_layout) simp_all
  then have pf: "parseApicFrame dec ?frame
        = Inr (Some \<lparr>mime = mimeTypeOf dec [0x69, 0x6D, 0x61, 0x67, 0x65, 0x2F, 0x70, 0x6E, 0x67],
                        payload = [i0, i1, i2, i3]\<rparr>)"
    by simp
  show ?thesis
    by (subst frameWalk.simps) (simp add: r fid sz sub pf del: append.simps)
qed

lemma png_tag_walk:
  "extractArtworkUrl dec
     ([0x49, 0x44, 0x33, 3, r, 0, 0, 0, 0, 27]
      @ [0x41, 0x50, 0x49, 0x43, 0, 0, 0, 17, f0, f1]
      @ [0, 0x69, 0x6D, 0x61, 0x67, 0x65, 0x2F, 0x70, 0x6E, 0x67, 0, p, 0, i0, i1, i2, i3])
   = Inr (Some \<lparr>mime = mimeTypeOf dec [0x69, 0x6D, 0x61, 0x67, 0x65, 0x2F, 0x70, 0x6E, 0x67],
                  payload = [i0, i1, i2, i3]\<rparr>)"
proof -
  let ?body = "[0x41, 0x50, 0x49, 0x43, 0, 0, 0, 17, f0, f1]
      @ [0, 0x69, 0x6D, 0x61, 0x67, 0x65, 0x2F, 0x70, 0x6E, 0x67, 0, p, 0, i0, i1, i2, i3]"
  have s: "shiftOr 0 0 0 27 = 27" by (simp add: shiftOr_def)
  have "extractArtworkUrl dec ([0x49, 0x44, 0x33, 3, r, 0, 0, 0, 0, 27] @ ?body)
        = frameWalk dec (uint (3::byte)) (take (nat (shiftOr 0 0 0 27)) ?body) 0"
    by (rule extract_is_walk) (simp_all add: s)
  also have "\<dots> = frameWalk dec 3 ?body 0" by (simp add: s)
  also have "\<dots> = Inr (Some \<lparr>mime = mimeTypeOf dec [0x69, 0x6D, 0x61, 0x67, 0x65, 0x2F, 0x70, 0x6E, 0x67],
                  payload = [i0, i1, i2, i3]\<rparr>)"
    by (rule png_frame_walk)
  finally show ?thesis by simp
qed

text \<open>
  Claim C2, as amended. The tag size must count the whole frame, header included: the
  picture frame of the claim is 10 header bytes and 17 data bytes, so the synchsafe size
  bytes encode 27. On the buffer made of the ID3 marker, version 3, any revision byte,
  flags 0, the size bytes 0, 0, 0, 27 and the frame (identifier APIC, size 17, any two
  flag bytes, encoding 0, \<open>image/png\<close> and a null byte, any picture type, a null byte for
  the empty description, any 4 image bytes), extraction returns the image resource with
  exactly those 4 bytes; its type is \<open>image/png\<close> where the platform has a \<open>TextDecoder\<close>,
  and \<open>image/jpeg\<close> where it has none.
\<close>

theorem extract_png_artwork:
  "extractArtworkUrl True
     ([0x49, 0x44, 0x33, 3, r, 0, 0, 0, 0, 27]
      @ [0x41, 0x50, 0x49, 0x43, 0, 0, 0, 17, f0, f1]
      @ [0, 0x69, 0x6D, 0x61, 0x67, 0x65, 0x2F, 0x70, 0x6E, 0x67, 0, p, 0, i0, i1, i2, i3])
   = Inr (Some \<lparr>mime = ''image/png'', payload = [i0, i1, i2, i3]\<rparr>)
   \<and> extractArtworkUrl False
     ([0x49, 0x44, 0x33, 3, r, 0, 0, 0, 0, 27]
      @ [0x41, 0x50, 0x49, 0x43, 0, 0, 0, 17, f0, f1]
      @ [0, 0x69, 0x6D, 0x61, 0x67, 0x65, 0x2F, 0x70, 0x6E, 0x67, 0, p, 0, i0, i1, i2, i3])
   = Inr (Some \<lparr>mime = ''image/jpeg'', payload = [i0, i1, i2, i3]\<rparr>)"
  by (simp only: png_tag_walk png_mime_type mimeTypeOf_default(2) simp_thms)

text \<open>The same buffer with front-cover picture type 3 and the first four bytes of a PNG file.\<close>

theorem extract_png_artwork_witness:
  "extractArtworkUrl True
     [0x49, 0x44, 0x33, 3, 0, 0, 0, 0, 0, 27,
      0x41, 0x50, 0x49, 0x43, 0, 0, 0, 17, 0, 0,
      0, 0x69, 0x6D, 0x61, 0x67, 0x65, 0x2F, 0x70, 0x6E, 0x67, 0, 3, 0, 0x89, 0x50, 0x4E, 0x47]
   = Inr (Some \<lparr>mime = ''image/png'', payload = [0x89, 0x50, 0x4E, 0x47]\<rparr>)
   \<and> extractArtworkUrl False
     [0x49, 0x44, 0x33, 3, 0, 0, 0, 0, 0, 27,
      0x41, 0x50, 0x49, 0x43, 0, 0, 0, 17, 0, 0,
      0, 0x69, 0x6D, 0x61, 0x67, 0x65, 0x2F, 0x70, 0x6E, 0x67, 0, 3, 0, 0x89, 0x50, 0x4E, 0x47]
   = Inr (Some \<lparr>mime = ''image/jpeg'', payload = [0x89, 0x50, 0x4E, 0x47]\<rparr>)"
  using extract_png_artwork[where r = 0 and ?f0.0 = 0 and ?f1.0 = 0 and p = 3
      and ?i0.0 = "0x89" and ?i1.0 = "0x50" and ?i2.0 = "0x4E" and ?i3.0 = "0x47"]
  by simp

text \<open>
  Claim C2 as stated fails: with size bytes that encode 17, the tag body read is the frame
  header and the first 7 of its 17 data bytes, the frame overruns the body, and extraction
  returns no image.
\<close>

theorem extract_png_size17_counterexample:
  "extractArtworkUrl True
     [0x49, 0x44, 0x33, 3, 0, 0, 0, 0, 0, 17,
      0x41, 0x50, 0x49, 0x43, 0, 0, 0, 17, 0, 0,
      0, 0x69, 0x6D, 0x61, 0x67, 0x65, 0x2F, 0x70, 0x6E, 0x67, 0, 3, 0, 0x89, 0x50, 0x4E, 0x47]
   = Inr None"
  by code_simp

section \<open>Chains of links\<close>

lemma first_simps [simp]: "first [] = None" "first (x # xs) = Some x"
  by (simp_all add: first_def)

lemma first_None [simp]: "first xs = None \<longleftrightarrow> xs = []"
  by (cases xs) simp_all

lemma first_append: "first (xs @ ys) = (if xs = [] then first ys else first xs)"
  by (cases xs) simp_all

lemma first_Some: "first xs = Some a \<longleftrightarrow> (\<exists>us. xs = a # us)"
  by (cases xs) auto

lemma final_simps [simp]: "final [] = None" "final (xs @ [x]) = Some x" "final [x] = Some x"
  by (simp_all add: final_def)

lemma final_Cons: "final (x # xs) = (if xs = [] then Some x else final xs)"
  by (simp add: final_def first_append)

lemma final_append: "final (xs @ ys) = (if ys = [] then final xs else final ys)"
  by (simp add: final_def first_append)

lemma final_None [simp]: "final xs = None \<longleftrightarrow> xs = []"
  by (simp add: final_def)

lemma final_Some: "final xs = Some a \<longleftrightarrow> (\<exists>us. xs = us @ [a])"
  by (cases xs rule: rev_cases) auto

lemma first_rev [simp]: "first (rev xs) = final xs"
  by (simp add: final_def)

lemma final_rev [simp]: "final (rev xs) = first xs"
  by (simp add: final_def)

lemma visits_start: "visits f xs p \<Longrightarrow> p = first xs"
  by (cases xs) simp_all

lemma visits_cong:
  "visits f xs p \<Longrightarrow> (\<And>x. x \<in> set xs \<Longrightarrow> g x = f x) \<Longrightarrow> visits g xs p"
  by (induction xs arbitrary: p) simp_all

lemma visits_unique: "visits f xs p \<Longrightarrow> visits f ys p \<Longrightarrow> xs = ys"
proof (induction xs arbitrary: ys p)
  case Nil
  then show ?case by (cases ys) simp_all
next
  case (Cons x xs)
  then show ?case by (cases ys) auto
qed

lemma visits_after: "visits f (us @ v # vs) p \<Longrightarrow> visits f vs (f v)"
  by (induction us arbitrary: p) simp_all

lemma visits_next: "visits f (us @ v # vs) p \<Longrightarrow> f v = first vs"
  using visits_after visits_start by blast

lemma visits_not_again:
  assumes "visits f xs (f x)"
  shows "x \<notin> set xs"
proof
  assume "x \<in> set xs"
  then obtain us vs where xs: "xs = us @ x # vs" by (auto simp add: in_set_conv_decomp)
  with assms have "visits f vs (f x)" using visits_after by blast
  with assms have "xs = vs" by (rule visits_unique)
  with xs show False by simp
qed

lemma visits_distinct: "visits f xs p \<Longrightarrow> distinct xs"
  by (induction xs arbitrary: p) (auto dest: visits_not_again)

lemma visits_insert:
  assumes "visits f (us @ vs) p" and "n \<notin> set (us @ vs)"
    and "g n = first vs"
    and "\<And>a. final us = Some a \<Longrightarrow> g a = Some n"
    and "\<And>y. y \<in> set (us @ vs) \<Longrightarrow> Some y \<noteq> final us \<Longrightarrow> g y = f y"
  shows "visits g (us @ n # vs) (if us = [] then Some n else p)"
  using assms
proof (induction us arbitrary: p)
  case Nil
  have "visits g vs (first vs)"
    using Nil visits_start[of f vs p] by (auto intro: visits_cong)
  with Nil show ?case by simp
next
  case (Cons u us)
  have d: "distinct (u # us @ vs)" using Cons.prems(1) visits_distinct[of f "(u # us) @ vs" p] by simp
  show ?case
  proof (cases "us = []")
    case True
    with Cons.prems have "g u = Some n" "g n = first vs" by simp_all
    moreover have "visits g vs (first vs)"
    proof -
      have "visits f vs (f u)" using Cons.prems(1) True by simp
      then have "visits g vs (f u)"
        using Cons.prems(5) True d by (auto intro!: visits_cong[of f vs "f u" g])
      then show ?thesis using visits_start by fastforce
    qed
    ultimately show ?thesis using Cons.prems(1) True by simp
  next
    case False
    have nf: "Some u \<noteq> final (u # us)" using False d
      by (cases us rule: rev_cases) (auto simp add: final_Cons)
    have fin: "final (u # us) = final us" using False by (simp add: final_Cons)
    have "visits g (us @ n # vs) (if us = [] then Some n else f u)"
    proof (rule Cons.IH)
      show "visits f (us @ vs) (f u)" using Cons.prems(1) by simp
      show "n \<notin> set (us @ vs)" using Cons.prems(2) by simp
      show "g n = first vs" by (rule Cons.prems(3))
      show "g a = Some n" if "final us = Some a" for a using that Cons.prems(4) fin by simp
      show "g y = f y" if "y \<in> set (us @ vs)" "Some y \<noteq> final us" for y
        using that Cons.prems(5)[of y] fin by simp
    qed
    moreover have "g u = f u" using Cons.prems(5)[of u] nf by simp
    ultimately show ?thesis using Cons.prems(1) False by simp
  qed
qed

lemma visits_remove:
  assumes "visits f (us @ x # vs) p"
    and "\<And>a. final us = Some a \<Longrightarrow> g a = f x"
    and "\<And>y. y \<in> set (us @ vs) \<Longrightarrow> Some y \<noteq> final us \<Longrightarrow> g y = f y"
  shows "visits g (us @ vs) (if us = [] then f x else p)"
  using assms
proof (induction us arbitrary: p)
  case Nil
  then show ?case by (auto intro: visits_cong)
next
  case (Cons u us)
  have d: "distinct (u # us @ x # vs)"
    using Cons.prems(1) visits_distinct[of f "(u # us) @ x # vs" p] by simp
  show ?case
  proof (cases "us = []")
    case True
    with Cons.prems have gu: "g u = f x" by simp
    have "visits f vs (f x)" using Cons.prems(1) True by simp
    then have "visits g vs (f x)"
      using Cons.prems(3) True d by (auto intro!: visits_cong[of f vs "f x" g])
    with gu show ?thesis using Cons.prems(1) True by simp
  next
    case False
    have nf: "Some u \<noteq> final (u # us)" using False d
      by (cases us rule: rev_cases) (auto simp add: final_Cons)
    have fin: "final (u # us) = final us" using False by (simp add: final_Cons)
    have "visits g (us @ vs) (if us = [] then f x else f u)"
    proof (rule Cons.IH)
      show "visits f (us @ x # vs) (f u)" using Cons.prems(1) by simp
      show "g a = f x" if "final us = Some a" for a using that Cons.prems(2) fin by simp
      show "g y = f y" if "y \<in> set (us @ vs)" "Some y \<noteq> final us" for y
        using that Cons.prems(3)[of y] fin by simp
    qed
    moreover have "g u = f u" using Cons.prems(3)[of u] nf by simp
    ultimately show ?thesis using Cons.prems(1) False by simp
  qed
qed

lemma walk_visits:
  "visits f xs p \<Longrightarrow> 0 \<le> k \<Longrightarrow> k < int (length xs) \<Longrightarrow> walk f k p = Some (xs ! nat k)"
proof (induction xs arbitrary: k p)
  case Nil
  then show ?case by simp
next
  case (Cons x xs)
  show ?case
  proof (cases "k = 0")
    case True
    with Cons.prems show ?thesis by (subst walk.simps) simp
  next
    case False
    with Cons.prems have "walk f (k - 1) (f x) = Some (xs ! nat (k - 1))"
      by (intro Cons.IH) simp_all
    moreover have "(x # xs) ! nat k = xs ! nat (k - 1)"
      using False Cons.prems by (simp add: nth_Cons' nat_diff_distrib)
    ultimately show ?thesis using False Cons.prems by (subst walk.simps) simp
  qed
qed

lemma collect_visits:
  "visits f xs p \<Longrightarrow> collect f g p acc = Some (acc @ map g xs)"
proof (induction xs arbitrary: p acc)
  case Nil
  then show ?case by (subst collect.simps) simp
next
  case (Cons x xs)
  then have "collect f g (f x) (acc @ [g x]) = Some ((acc @ [g x]) @ map g xs)"
    by (intro Cons.IH) simp
  with Cons.prems show ?case by (subst collect.simps) simp
qed

lemma indexOfLoop_visits:
  "visits f xs p \<Longrightarrow>
     indexOfLoop f node p k
       = Some (if node \<in> set xs then k + int (length (takeWhile (\<lambda>x. x \<noteq> node) xs)) else - 1)"
proof (induction xs arbitrary: p k)
  case Nil
  then show ?case by (subst indexOfLoop.simps) simp
next
  case (Cons x xs)
  then have "indexOfLoop f node (f x) (k + 1)
       = Some (if node \<in> set xs then (k + 1) + int (length (takeWhile (\<lambda>x. x \<noteq> node) xs)) else - 1)"
    by (intro Cons.IH) simp
  with Cons.prems show ?case by (subst indexOfLoop.simps) auto
qed

section \<open>The structural invariant of the sequence\<close>

lemma holds_ends:
  assumes "holds s xs"
  shows "head s = first xs" and "tail s = final xs" and "distinct xs"
    and "length_dll s = int (length xs)" and "\<And>x. x \<in> set xs \<Longrightarrow> x < fresh s"
proof -
  show "head s = first xs" using assms visits_start[of "nxt s" xs "head s"] by (simp add: holds_def)
  show "tail s = final xs" using assms visits_start[of "prv s" "rev xs" "tail s"] by (simp add: holds_def)
  show "distinct xs" using assms visits_distinct[of "nxt s" xs "head s"] by (simp add: holds_def)
  show "length_dll s = int (length xs)" using assms by (simp add: holds_def)
  show "x < fresh s" if "x \<in> set xs" for x using that assms by (simp add: holds_def list_all_iff)
qed

lemma holds_links:
  assumes "holds s (ys @ x # zs)"
  shows "nxt s x = first zs" and "prv s x = final ys"
proof -
  show "nxt s x = first zs" using assms visits_next[of "nxt s" ys x zs "head s"] by (simp add: holds_def)
  have "visits (prv s) (rev zs @ x # rev ys) (tail s)" using assms by (simp add: holds_def)
  then show "prv s x = final ys" using visits_next[of "prv s" "rev zs" x "rev ys" "tail s"] by simp
qed

lemma holds_insert:
  assumes h: "holds s (ys @ zs)" and n: "n \<notin> set (ys @ zs)" "n < fresh t" "fresh s \<le> fresh t"
    and nn: "nxt t n = first zs" and pn: "prv t n = final ys"
    and na: "\<And>a. final ys = Some a \<Longrightarrow> nxt t a = Some n"
    and pb: "\<And>b. first zs = Some b \<Longrightarrow> prv t b = Some n"
    and ny: "\<And>y. y \<in> set (ys @ zs) \<Longrightarrow> Some y \<noteq> final ys \<Longrightarrow> nxt t y = nxt s y"
    and py: "\<And>y. y \<in> set (ys @ zs) \<Longrightarrow> Some y \<noteq> first zs \<Longrightarrow> prv t y = prv s y"
    and hd: "head t = (if ys = [] then Some n else head s)"
    and tl: "tail t = (if zs = [] then Some n else tail s)"
    and len: "length_dll t = length_dll s + 1"
  shows "holds t (ys @ n # zs)"
proof -
  have f: "visits (nxt s) (ys @ zs) (head s)" and b: "visits (prv s) (rev zs @ rev ys) (tail s)"
    using h by (simp_all add: holds_def)
  have "visits (nxt t) (ys @ n # zs) (if ys = [] then Some n else head s)"
    using f n(1) nn na ny by (rule visits_insert)
  moreover have "visits (prv t) (rev zs @ n # rev ys) (if rev zs = [] then Some n else tail s)"
  proof (rule visits_insert[OF b])
    show "n \<notin> set (rev zs @ rev ys)" using n(1) by auto
    show "prv t n = first (rev ys)" using pn by simp
    show "prv t a = Some n" if "final (rev zs) = Some a" for a using that pb by simp
    show "prv t y = prv s y" if "y \<in> set (rev zs @ rev ys)" "Some y \<noteq> final (rev zs)" for y
      using that py[of y] by auto
  qed
  moreover have "list_all (\<lambda>x. x < fresh t) (ys @ n # zs)"
    using holds_ends(5)[OF h] n(2,3) by (fastforce simp add: list_all_iff)
  ultimately show ?thesis
    using hd tl len holds_ends(4)[OF h]
    by (cases "ys = []"; cases "zs = []") (simp_all add: holds_def)
qed

lemma holds_remove:
  assumes h: "holds s (ys @ x # zs)" and fr: "fresh s \<le> fresh t"
    and na: "\<And>a. final ys = Some a \<Longrightarrow> nxt t a = first zs"
    and pb: "\<And>b. first zs = Some b \<Longrightarrow> prv t b = final ys"
    and ny: "\<And>y. y \<in> set (ys @ zs) \<Longrightarrow> Some y \<noteq> final ys \<Longrightarrow> nxt t y = nxt s y"
    and py: "\<And>y. y \<in> set (ys @ zs) \<Longrightarrow> Some y \<noteq> first zs \<Longrightarrow> prv t y = prv s y"
    and hd: "head t = (if ys = [] then first zs else head s)"
    and tl: "tail t = (if zs = [] then final ys else tail s)"
    and len: "length_dll t = max 0 (length_dll s - 1)"
  shows "holds t (ys @ zs)"
proof -
  have f: "visits (nxt s) (ys @ x # zs) (head s)"
    and b: "visits (prv s) (rev zs @ x # rev ys) (tail s)"
    using h by (simp_all add: holds_def)
  note l = holds_links[OF h]
  have "visits (nxt t) (ys @ zs) (if ys = [] then nxt s x else head s)"
    using f na ny by (intro visits_remove) (simp_all add: l)
  moreover have "visits (prv t) (rev zs @ rev ys) (if rev zs = [] then prv s x else tail s)"
  proof (rule visits_remove[OF b])
    show "prv t a = prv s x" if "final (rev zs) = Some a" for a using that pb l by simp
    show "prv t y = prv s y" if "y \<in> set (rev zs @ rev ys)" "Some y \<noteq> final (rev zs)" for y
      using that py[of y] by auto
  qed
  moreover have "list_all (\<lambda>x. x < fresh t) (ys @ zs)"
    using holds_ends(5)[OF h] fr by (fastforce simp add: list_all_iff)
  ultimately show ?thesis
    using hd tl len holds_ends(4)[OF h] l
    by (cases "ys = []"; cases "zs = []") (simp_all add: holds_def)
qed

lemma getNodeAt_holds:
  assumes "holds s xs"
  shows "getNodeAt s i = (if 0 \<le> i \<and> i < int (length xs) then Some (xs ! nat i) else None)"
proof (cases "0 \<le> i \<and> i < int (length xs)")
  case False
  then show ?thesis using holds_ends(4)[OF assms] by (auto simp add: getNodeAt_def)
next
  case True
  have f: "visits (nxt s) xs (head s)" and b: "visits (prv s) (rev xs) (tail s)"
    using assms by (simp_all add: holds_def)
  have fw: "walk (nxt s) i (head s) = Some (xs ! nat i)"
    using f True by (intro walk_visits) simp_all
  have "walk (prv s) (int (length xs) - 1 - i) (tail s) = Some (rev xs ! nat (int (length xs) - 1 - i))"
    using b True by (intro walk_visits) simp_all
  moreover have "rev xs ! nat (int (length xs) - 1 - i) = xs ! nat i"
  proof -
    have k: "nat (int (length xs) - 1 - i) = length xs - Suc (nat i)" using True by linarith
    have "nat (int (length xs) - 1 - i) < length xs" using True by linarith
    then have "rev xs ! nat (int (length xs) - 1 - i) = xs ! (length xs - Suc (nat (int (length xs) - 1 - i)))"
      by (rule rev_nth)
    moreover have "length xs - Suc (nat (int (length xs) - 1 - i)) = nat i" using True k by linarith
    ultimately show ?thesis by simp
  qed
  ultimately have bw: "walk (prv s) (length_dll s - 1 - i) (tail s) = Some (xs ! nat i)"
    using holds_ends(4)[OF assms] by simp
  show ?thesis using True fw bw holds_ends(4)[OF assms] by (simp add: getNodeAt_def)
qed

lemma final_in_set: "final xs = Some a \<Longrightarrow> a \<in> set xs"
  by (auto simp add: final_Some)

lemma first_in_set: "first xs = Some a \<Longrightarrow> a \<in> set xs"
  by (auto simp add: first_Some)

lemma detachNode_holds:
  assumes h: "holds s (ys @ x # zs)"
  shows "holds (detachNode s x) (ys @ zs)"
proof -
  note l = holds_links[OF h]
  have d: "x \<notin> set ys" "x \<notin> set zs" "set ys \<inter> set zs = {}"
    using holds_ends(3)[OF h] by auto
  show ?thesis
  proof (rule holds_remove[OF h])
    show "fresh s \<le> fresh (detachNode s x)" by (simp add: detachNode_def Let_def split: option.splits)
    show "nxt (detachNode s x) a = first zs" if "final ys = Some a" for a
      using that l d final_in_set[OF that]
      by (auto simp add: detachNode_def Let_def split: option.splits)
    show "prv (detachNode s x) b = final ys" if "first zs = Some b" for b
      using that l d first_in_set[OF that]
      by (auto simp add: detachNode_def Let_def split: option.splits)
    show "nxt (detachNode s x) y = nxt s y" if "y \<in> set (ys @ zs)" "Some y \<noteq> final ys" for y
      using that l d
      by (auto simp add: detachNode_def Let_def split: option.splits)
    show "prv (detachNode s x) y = prv s y" if "y \<in> set (ys @ zs)" "Some y \<noteq> first zs" for y
      using that l d
      by (auto simp add: detachNode_def Let_def split: option.splits)
    show "head (detachNode s x) = (if ys = [] then first zs else head s)"
      using l by (auto simp add: detachNode_def Let_def split: option.splits)
    show "tail (detachNode s x) = (if zs = [] then final ys else tail s)"
      using l by (auto simp add: detachNode_def Let_def split: option.splits)
    show "length_dll (detachNode s x) = max 0 (length_dll s - 1)"
      by (simp add: detachNode_def Let_def split: option.splits)
  qed
qed

lemma detachNode_node:
  "nxt (detachNode s x) x = None" "prv (detachNode s x) x = None"
  "val (detachNode s x) = val s" "fresh (detachNode s x) = fresh s"
  by (simp_all add: detachNode_def Let_def split: option.splits)

lemma fresh_not_held:
  assumes "holds s xs"
  shows "fresh s \<notin> set xs"
  using holds_ends(5)[OF assms, of "fresh s"] by auto

lemma insertAtStart_holds:
  assumes h: "holds s xs"
  shows "holds (snd (insertAtStart s v)) (fresh s # xs)"
proof -
  let ?t = "snd (insertAtStart s v)"
  note e = holds_ends(1,2)[OF h]
  note n = fresh_not_held[OF h]
  have "holds ?t ([] @ fresh s # xs)"
  proof (rule holds_insert)
    show "holds s ([] @ xs)" using h by simp
    show "fresh s \<notin> set ([] @ xs)" using n by simp
    show "fresh s < fresh ?t" "fresh s \<le> fresh ?t"
      by (simp_all add: insertAtStart_def createNode_def Let_def split: option.splits)
    show "nxt ?t (fresh s) = first xs" using e
      by (auto simp add: insertAtStart_def createNode_def Let_def split: option.splits)
    show "prv ?t (fresh s) = final []" using e n
      by (auto simp add: insertAtStart_def createNode_def Let_def split: option.splits dest: first_in_set)
    show "nxt ?t a = Some (fresh s)" if "final [] = Some a" for a using that by simp
    show "prv ?t b = Some (fresh s)" if "first xs = Some b" for b using that e
      by (auto simp add: insertAtStart_def createNode_def Let_def split: option.splits)
    show "nxt ?t y = nxt s y" if "y \<in> set ([] @ xs)" for y using that n
      by (auto simp add: insertAtStart_def createNode_def Let_def split: option.splits)
    show "prv ?t y = prv s y" if "y \<in> set ([] @ xs)" "Some y \<noteq> first xs" for y using that n e
      by (auto simp add: insertAtStart_def createNode_def Let_def split: option.splits)
    show "head ?t = (if [] = [] then Some (fresh s) else head s)"
      by (simp add: insertAtStart_def createNode_def Let_def split: option.splits)
    show "tail ?t = (if xs = [] then Some (fresh s) else tail s)" using e
      by (auto simp add: insertAtStart_def createNode_def Let_def split: option.splits)
    show "length_dll ?t = length_dll s + 1"
      by (simp add: insertAtStart_def createNode_def Let_def split: option.splits)
  qed
  then show ?thesis by simp
qed

lemma insertAtEnd_holds:
  assumes h: "holds s xs"
  shows "holds (snd (insertAtEnd s v)) (xs @ [fresh s])"
proof -
  let ?t = "snd (insertAtEnd s v)"
  note e = holds_ends(1,2)[OF h]
  note n = fresh_not_held[OF h]
  have "holds ?t (xs @ fresh s # [])"
  proof (rule holds_insert)
    show "holds s (xs @ [])" using h by simp
    show "fresh s \<notin> set (xs @ [])" using n by simp
    show "fresh s < fresh ?t" "fresh s \<le> fresh ?t"
      by (simp_all add: insertAtEnd_def createNode_def Let_def split: option.splits)
    show "nxt ?t (fresh s) = first []" using e n
      by (auto simp add: insertAtEnd_def createNode_def Let_def split: option.splits dest: final_in_set)
    show "prv ?t (fresh s) = final xs" using e
      by (auto simp add: insertAtEnd_def createNode_def Let_def split: option.splits)
    show "nxt ?t a = Some (fresh s)" if "final xs = Some a" for a using that e
      by (auto simp add: insertAtEnd_def createNode_def Let_def split: option.splits)
    show "prv ?t b = Some (fresh s)" if "first [] = Some b" for b using that by simp
    show "nxt ?t y = nxt s y" if "y \<in> set (xs @ [])" "Some y \<noteq> final xs" for y using that n e
      by (auto simp add: insertAtEnd_def createNode_def Let_def split: option.splits)
    show "prv ?t y = prv s y" if "y \<in> set (xs @ [])" for y using that n
      by (auto simp add: insertAtEnd_def createNode_def Let_def split: option.splits)
    show "head ?t = (if xs = [] then Some (fresh s) else head s)" using e
      by (auto simp add: insertAtEnd_def createNode_def Let_def split: option.splits)
    show "tail ?t = (if [] = [] then Some (fresh s) else tail s)"
      by (simp add: insertAtEnd_def createNode_def Let_def split: option.splits)
    show "length_dll ?t = length_dll s + 1"
      by (simp add: insertAtEnd_def createNode_def Let_def split: option.splits)
  qed
  then show ?thesis by simp
qed

lemma insert_values:
  "fst (insertAtStart s v) = fresh s" "val (snd (insertAtStart s v)) = (val s)(fresh s := v)"
  "fst (insertAtEnd s v) = fresh s" "val (snd (insertAtEnd s v)) = (val s)(fresh s := v)"
  by (simp_all add: insertAtStart_def insertAtEnd_def createNode_def Let_def split: option.splits)

lemma split_at_index:
  assumes "i < length xs"
  shows "xs = take i xs @ xs ! i # drop (Suc i) xs"
  using assms by (rule id_take_nth_drop)

lemma insertAt_holds:
  assumes h: "holds s xs"
  shows "holds (snd (insertAt s v i)) (placed (nat i) (fresh s) xs)"
proof -
  note e = holds_ends[OF h]
  consider (start) "i \<le> 0 \<or> head s = None"
    | (fin) "\<not> (i \<le> 0 \<or> head s = None)" "i \<ge> length_dll s"
    | (mid) "0 < i" "i < int (length xs)"
    using e(4) by linarith
  then show ?thesis
  proof cases
    case start
    then have "placed (nat i) (fresh s) xs = fresh s # xs"
      using e(1) by (auto simp add: placed_def)
    then show ?thesis using start insertAtStart_holds[OF h, of v] by (simp add: insertAt_def)
  next
    case fin
    then have "placed (nat i) (fresh s) xs = xs @ [fresh s]"
      using e(4) by (simp add: placed_def)
    then show ?thesis using fin insertAtEnd_holds[OF h, of v] by (auto simp add: insertAt_def)
  next
    case mid
    let ?k = "nat i"
    let ?ys = "take ?k xs" and ?c = "xs ! ?k" and ?zs = "drop (Suc ?k) xs"
    have k: "?k < length xs" "0 < ?k" using mid by simp_all
    have xs: "xs = ?ys @ ?c # ?zs" using k(1) by (rule split_at_index)
    have g: "getNodeAt s i = Some ?c" using mid getNodeAt_holds[OF h, of i] by simp
    have ne: "xs \<noteq> []" "?ys \<noteq> []" using k by auto
    have hs: "holds s (?ys @ ?c # ?zs)" using h xs by simp
    note l = holds_links[OF hs]
    note n = fresh_not_held[OF h]
    have dr: "drop ?k xs = ?c # ?zs" using k(1) by (simp add: Cons_nth_drop_Suc)
    obtain hh where hh: "head s = Some hh" using e(1) ne(1) by (cases xs) simp_all
    have br: "\<not> i \<le> 0" "\<not> i \<ge> length_dll s"
      using mid e(4) by simp_all
    obtain a where a: "final ?ys = Some a" using ne(2) by (cases "final ?ys") simp_all
    have ain: "a \<in> set ?ys" using a by (rule final_in_set)
    have dist: "distinct (?ys @ ?c # ?zs)" using e(3) xs by simp
    have cin: "?c \<in> set xs" using k(1) by simp
    have c_ys: "?c \<notin> set ?ys" using dist by auto
    have a_xs: "a \<in> set xs" using ain by (rule in_set_takeD)
    have ac: "a \<noteq> ?c" "a \<noteq> fresh s" "?c \<noteq> fresh s"
      using ain c_ys a_xs cin n by auto
    let ?t = "snd (insertAt s v i)"
    have t: "?t = s\<lparr>nxt := (nxt s)(fresh s := Some ?c, a := Some (fresh s)),
                     prv := (prv s)(fresh s := Some a, ?c := Some (fresh s)),
                     val := (val s)(fresh s := v), fresh := Suc (fresh s),
                     length_dll := length_dll s + 1\<rparr>"
      using br hh g l a ac by (simp add: insertAt_def createNode_def Let_def)
    have "holds ?t (?ys @ fresh s # (?c # ?zs))"
    proof (rule holds_insert)
      show "holds s (?ys @ ?c # ?zs)" by (rule hs)
      show "fresh s \<notin> set (?ys @ ?c # ?zs)" using n xs by simp
      show "fresh s < fresh ?t" "fresh s \<le> fresh ?t" by (simp_all add: t)
      show "nxt ?t (fresh s) = first (?c # ?zs)" using ac by (simp add: t)
      show "prv ?t (fresh s) = final ?ys" using ac a by (simp add: t)
      show "nxt ?t a' = Some (fresh s)" if "final ?ys = Some a'" for a' using that a by (simp add: t)
      show "prv ?t b = Some (fresh s)" if "first (?c # ?zs) = Some b" for b using that by (simp add: t)
      show "nxt ?t y = nxt s y" if "y \<in> set (?ys @ ?c # ?zs)" "Some y \<noteq> final ?ys" for y
        using that a n xs by (auto simp add: t)
      show "prv ?t y = prv s y" if "y \<in> set (?ys @ ?c # ?zs)" "Some y \<noteq> first (?c # ?zs)" for y
        using that n xs by (auto simp add: t)
      show "head ?t = (if ?ys = [] then Some (fresh s) else head s)" using ne by (simp add: t)
      show "tail ?t = (if ?c # ?zs = [] then Some (fresh s) else tail s)" by (simp add: t)
      show "length_dll ?t = length_dll s + 1" by (simp add: t)
    qed
    then show ?thesis using dr by (simp add: placed_def)
  qed
qed

lemma removeNode_Some:
  "removeNode s (Some x) = (Some x, detachNode s x)"
proof -
  have "(nxt (detachNode s x))(x := None) = nxt (detachNode s x)"
    "(prv (detachNode s x))(x := None) = prv (detachNode s x)"
    using detachNode_node(1,2)[of s x] by (simp_all add: fun_upd_idem)
  then show ?thesis by (simp add: removeNode_def Let_def)
qed

lemma removeAt_in_range:
  assumes "holds s xs" "0 \<le> i" "i < int (length xs)"
  shows "removeAt s i = (Some (xs ! nat i), detachNode s (xs ! nat i))"
  using getNodeAt_holds[OF assms(1), of i] assms(2,3) by (simp add: removeAt_def removeNode_Some)

lemma removeAt_out_of_range:
  assumes "holds s xs" "\<not> (0 \<le> i \<and> i < int (length xs))"
  shows "removeAt s i = (None, s)"
  using getNodeAt_holds[OF assms(1), of i] assms(2) by (simp add: removeAt_def removeNode_def)

lemma detachNode_at:
  assumes "holds s xs" "k < length xs"
  shows "holds (detachNode s (xs ! k)) (without k xs)"
proof -
  have "xs = take k xs @ xs ! k # drop (Suc k) xs" using assms(2) by (rule split_at_index)
  then have "holds s (take k xs @ xs ! k # drop (Suc k) xs)" using assms(1) by simp
  then have "holds (detachNode s (xs ! k)) (take k xs @ drop (Suc k) xs)"
    by (rule detachNode_holds)
  then show ?thesis by (simp add: without_def)
qed

lemma removeAt_holds:
  assumes h: "holds s xs"
  shows "holds (snd (removeAt s i)) (if 0 \<le> i \<and> i < int (length xs) then without (nat i) xs else xs)"
proof (cases "0 \<le> i \<and> i < int (length xs)")
  case False
  then show ?thesis using removeAt_out_of_range[OF h False] h by auto
next
  case True
  then have "nat i < length xs" by linarith
  then have "holds (detachNode s (xs ! nat i)) (without (nat i) xs)"
    using h by (intro detachNode_at)
  then show ?thesis using True removeAt_in_range[OF h, of i] by auto
qed

lemma without_facts:
  assumes "distinct xs" "i < length xs"
  shows "xs ! i \<notin> set (without i xs)" and "length (without i xs) = length xs - 1"
    and "set (without i xs) \<subseteq> set xs"
proof -
  have xs: "xs = take i xs @ xs ! i # drop (Suc i) xs" using assms(2) by (rule split_at_index)
  then have "distinct (take i xs @ xs ! i # drop (Suc i) xs)" using assms(1) by simp
  then show "xs ! i \<notin> set (without i xs)" by (auto simp add: without_def)
  show "length (without i xs) = length xs - 1" using assms(2) by (simp add: without_def)
  show "set (without i xs) \<subseteq> set xs"
    by (auto simp add: without_def dest: in_set_takeD in_set_dropD)
qed

text \<open>Putting a detached node back, as the second half of \<open>moveNode\<close> does.\<close>

lemma reinsert_holds:
  assumes h: "holds d (ys @ zs)" and x: "x \<notin> set (ys @ zs)" "x < fresh d"
    and t: "t = d\<lparr>nxt := (case final ys of None \<Rightarrow> (nxt d)(x := first zs)
                              | Some a \<Rightarrow> (nxt d)(x := first zs, a := Some x)),
                  prv := (case first zs of None \<Rightarrow> (prv d)(x := final ys)
                              | Some b \<Rightarrow> (prv d)(x := final ys, b := Some x)),
                  head := (if ys = [] then Some x else head d),
                  tail := (if zs = [] then Some x else tail d),
                  length_dll := length_dll d + 1\<rparr>"
  shows "holds t (ys @ x # zs)"
proof (rule holds_insert[OF h x(1)])
  show "x < fresh t" "fresh d \<le> fresh t" using x(2) by (simp_all add: t)
  show "nxt t x = first zs" using x(1) by (auto simp add: t split: option.splits dest: final_in_set)
  show "prv t x = final ys" using x(1) by (auto simp add: t split: option.splits dest: first_in_set)
  show "nxt t a = Some x" if "final ys = Some a" for a using that by (simp add: t)
  show "prv t b = Some x" if "first zs = Some b" for b using that by (simp add: t)
  show "nxt t y = nxt d y" if "y \<in> set (ys @ zs)" "Some y \<noteq> final ys" for y
    using that x(1) by (auto simp add: t split: option.splits)
  show "prv t y = prv d y" if "y \<in> set (ys @ zs)" "Some y \<noteq> first zs" for y
    using that x(1) by (auto simp add: t split: option.splits)
  show "head t = (if ys = [] then Some x else head d)" by (simp add: t)
  show "tail t = (if zs = [] then Some x else tail d)" by (simp add: t)
  show "length_dll t = length_dll d + 1" by (simp add: t)
qed

lemma moveNode_same: "moveNode s i i = (getNodeAt s i, s)"
  by (simp add: moveNode_def)

lemma moveNode_out_of_range:
  assumes "holds s xs" "\<not> (0 \<le> i \<and> i < int (length xs))"
  shows "moveNode s i j = (None, s)"
  using getNodeAt_holds[OF assms(1), of i] assms(2) by (auto simp add: moveNode_def)

lemma moveNode_holds:
  assumes h: "holds s xs" and r: "0 \<le> i" "i < int (length xs)" and ne: "i \<noteq> j"
  shows "fst (moveNode s i j) = Some (xs ! nat i)"
    and "holds (snd (moveNode s i j)) (moved (nat i) j xs)"
    and "val (snd (moveNode s i j)) = val s"
proof -
  let ?x = "xs ! nat i"
  let ?rest = "without (nat i) xs"
  let ?d = "detachNode s ?x"
  let ?k = "clampIndex j (length ?rest)"
  let ?ys = "take ?k ?rest" and ?zs = "drop ?k ?rest"
  have ni: "nat i < length xs" using r by linarith
  have g: "getNodeAt s i = Some ?x" using getNodeAt_holds[OF h, of i] r by simp
  have hd: "holds ?d ?rest" using h ni by (rule detachNode_at)
  note w = without_facts[OF holds_ends(3)[OF h] ni]
  have xin: "?x \<in> set xs" using ni by simp
  have xf: "?x < fresh ?d" using holds_ends(5)[OF h xin] by (simp add: detachNode_node)
  note dn = detachNode_node(1,2)[of s ?x]
  note e = holds_ends[OF hd]
  have kl: "?k \<le> length ?rest" by (simp add: clampIndex_def)
  have ti: "(if (if j < 0 then 0 else j) > length_dll ?d then length_dll ?d
             else (if j < 0 then 0 else j)) = int ?k"
    using e(4) by (auto simp add: clampIndex_def)
  have split: "?rest = ?ys @ ?zs" by simp
  have hs: "holds ?d (?ys @ ?zs)" using hd by simp
  have xs: "?x \<notin> set (?ys @ ?zs)" using w(1) by simp
  let ?t = "snd (moveNode s i j)"
  have ld: "length_dll ?d = int (length ?rest)" by (rule e(4))
  consider (A) "?rest = []"
    | (B) "?rest \<noteq> []" "j \<le> 0"
    | (C) "?rest \<noteq> []" "j \<ge> int (length ?rest)"
    | (D) "0 < j" "j < int (length ?rest)"
    by (cases "?rest = []") (auto, linarith)
  then have "fst (moveNode s i j) = Some ?x \<and> val ?t = val s \<and> holds ?t (placed ?k ?x ?rest)"
  proof cases
    case A
    have hn: "head ?d = None" using e(1) A by simp
    have t: "moveNode s i j = (Some ?x, ?d\<lparr>head := Some ?x, tail := Some ?x, length_dll := 1\<rparr>)"
      using ne g hn by (simp add: moveNode_def Let_def)
    have "holds (snd (moveNode s i j)) ([] @ ?x # [])"
      using hd A xf dn ld
      by (intro holds_insert[where s = ?d]) (simp_all add: t)
    then show ?thesis using A by (simp add: t placed_def detachNode_node)
  next
    case B
    obtain hh r where rest: "?rest = hh # r" using B(1) by (cases ?rest) auto
    have hn: "head ?d = Some hh" using e(1) rest by simp
    have k0: "?k = 0" using B(2) by (simp add: clampIndex_def)
    have xh: "?x \<noteq> hh" "?x \<notin> set r" using w(1) rest by auto
    have t: "moveNode s i j = (Some ?x, ?d\<lparr>nxt := (nxt ?d)(?x := Some hh), prv := (prv ?d)(hh := Some ?x),
                      head := Some ?x, length_dll := length_dll ?d + 1\<rparr>)"
      using ne g hn B ld rest by (simp add: moveNode_def Let_def)
    have "holds (snd (moveNode s i j)) ([] @ ?x # ?rest)"
      using hd xf dn xh rest
      by (intro holds_insert[where s = ?d]) (auto simp add: t)
    then show ?thesis using k0 by (simp add: t placed_def detachNode_node)
  next
    case C
    obtain r tt where rest: "?rest = r @ [tt]" using C(1) by (cases ?rest rule: rev_cases) auto
    have hn: "head ?d \<noteq> None" "tail ?d = Some tt" using e(1,2) rest by simp_all
    have kl: "?k = length ?rest" using C(2) by (simp add: clampIndex_def)
    have xh: "?x \<noteq> tt" "?x \<notin> set r" using w(1) rest by auto
    have j0: "\<not> j < 0" "j \<noteq> 0" using C rest by auto
    have t: "moveNode s i j = (Some ?x, ?d\<lparr>prv := (prv ?d)(?x := Some tt), nxt := (nxt ?d)(tt := Some ?x),
                      tail := Some ?x, length_dll := length_dll ?d + 1\<rparr>)"
      using ne g hn C ld j0 by (auto simp add: moveNode_def Let_def appendDetached_def)
    have "holds (snd (moveNode s i j)) (?rest @ ?x # [])"
      using hd xf dn xh rest
      by (intro holds_insert[where s = ?d]) (auto simp add: t)
    then show ?thesis using kl by (simp add: t placed_def detachNode_node)
  next
    case D
    have kj: "?k = nat j" "?k < length ?rest" "0 < ?k" using D by (simp_all add: clampIndex_def)
    let ?c = "?rest ! ?k"
    have gt: "getNodeAt ?d j = Some ?c" using getNodeAt_holds[OF hd, of j] D kj by simp
    have zs: "?zs = ?c # drop (Suc ?k) ?rest" using kj(2) by (simp add: Cons_nth_drop_Suc)
    have ysne: "?ys \<noteq> []" using kj by auto
    then obtain a where a: "final ?ys = Some a" by (cases "final ?ys") simp_all
    have hs': "holds ?d (?ys @ ?c # drop (Suc ?k) ?rest)" using hs zs by simp
    note l = holds_links[OF hs']
    have hn: "head ?d \<noteq> None" using e(1) kj by auto
    have ain: "a \<in> set ?ys" using a by (rule final_in_set)
    have cin: "?c \<in> set ?rest" using kj(2) by simp
    have a_rest: "a \<in> set ?rest" using ain by (rule in_set_takeD)
    have c_ys: "?c \<notin> set ?ys" using holds_ends(3)[OF hs'] by auto
    have ac: "a \<noteq> ?c" "?x \<noteq> a" "?x \<noteq> ?c" using ain c_ys a_rest cin w(1) by auto
    have j0: "\<not> j < 0" "j \<noteq> 0" "\<not> j > int (length ?rest)" "j \<noteq> int (length ?rest)"
      using D by auto
    have xnot: "?x \<notin> set ?ys" "?x \<notin> set (drop (Suc ?k) ?rest)"
      using xs zs by auto
    have t: "moveNode s i j = (Some ?x, ?d\<lparr>nxt := (nxt ?d)(?x := Some ?c, a := Some ?x),
                      prv := (prv ?d)(?x := Some a, ?c := Some ?x),
                      length_dll := length_dll ?d + 1\<rparr>)"
      using ne g hn ld j0 gt l a ac by (auto simp add: moveNode_def Let_def)
    have "holds (snd (moveNode s i j)) (?ys @ ?x # ?c # drop (Suc ?k) ?rest)"
    proof (rule holds_insert[where s = ?d])
      show "holds ?d (?ys @ ?c # drop (Suc ?k) ?rest)" by (rule hs')
      show "?x \<notin> set (?ys @ ?c # drop (Suc ?k) ?rest)" using xs zs by simp
    qed (use xf ac a ysne xnot in \<open>auto simp add: t\<close>)
    then show ?thesis using zs by (simp add: t placed_def detachNode_node)
  qed
  then show "fst (moveNode s i j) = Some (xs ! nat i)"
    and "holds (snd (moveNode s i j)) (moved (nat i) j xs)"
    and "val (snd (moveNode s i j)) = val s"
    by (simp_all add: moved_def Let_def)
qed

lemma empty_holds: "holds empty_dll []"
  by (simp add: holds_def empty_dll_def)

lemma fresh_after:
  "fresh (snd (insertAtStart s v)) = Suc (fresh s)"
  "fresh (snd (insertAtEnd s v)) = Suc (fresh s)"
  "fresh (snd (insertAt s v i)) = Suc (fresh s)"
  "fresh (snd (removeNode s n)) = fresh s"
  by (simp_all add: insertAtStart_def insertAtEnd_def insertAt_def createNode_def removeNode_def
      detachNode_node Let_def split: option.splits)

lemma moveNode_fresh: "fresh (snd (moveNode s i j)) = fresh s"
  by (simp add: moveNode_def Let_def appendDetached_def detachNode_node split: option.splits)

lemma apply_op_holds:
  assumes "holds s xs"
  shows "holds (apply_op s op) (op_on_list (fresh s) op xs)"
    and "fresh (apply_op s op) = (if creates op then Suc (fresh s) else fresh s)"
proof -
  show "holds (apply_op s op) (op_on_list (fresh s) op xs)"
  proof (cases op)
    case (InsertAtStart v)
    then show ?thesis using insertAtStart_holds[OF assms, of v] by simp
  next
    case (InsertAtEnd v)
    then show ?thesis using insertAtEnd_holds[OF assms, of v] by simp
  next
    case (InsertAt v i)
    then show ?thesis using insertAt_holds[OF assms, of v i] by simp
  next
    case (RemoveAt i)
    then show ?thesis using removeAt_holds[OF assms, of i] by simp
  next
    case (MoveNode i j)
    show ?thesis
    proof (cases "i = j")
      case True
      then show ?thesis using MoveNode assms by (simp add: moveNode_same)
    next
      case ne: False
      show ?thesis
      proof (cases "0 \<le> i \<and> i < int (length xs)")
        case True
        then show ?thesis using MoveNode ne moveNode_holds(2)[OF assms _ _ ne] by simp
      next
        case False
        then show ?thesis using MoveNode moveNode_out_of_range[OF assms False, of j] assms by auto
      qed
    qed
  qed
  show "fresh (apply_op s op) = (if creates op then Suc (fresh s) else fresh s)"
    by (cases op) (simp_all add: fresh_after removeAt_def moveNode_fresh)
qed

lemma foldl_apply_op_holds:
  "holds s xs \<Longrightarrow> \<exists>ys. holds (foldl apply_op s ops) ys"
proof (induction ops arbitrary: s xs)
  case Nil
  then show ?case by auto
next
  case (Cons op ops)
  from apply_op_holds(1)[OF Cons.prems, of op] show ?case using Cons.IH by simp
qed

lemma run_ops_holds: "\<exists>xs. holds (run_ops ops) xs"
  unfolding run_ops_def using empty_holds by (rule foldl_apply_op_holds)

lemma traversals_holds:
  assumes "holds s xs"
  shows "forwardNodes s = Some xs" and "backwardNodes s = Some (rev xs)"
    and "toArray s = Some (map (val s) xs)"
proof -
  have f: "visits (nxt s) xs (head s)" and b: "visits (prv s) (rev xs) (tail s)"
    using assms by (simp_all add: holds_def)
  show "forwardNodes s = Some xs" using collect_visits[OF f, of "\<lambda>c. c" "[]"] by (simp add: forwardNodes_def)
  show "backwardNodes s = Some (rev xs)"
    using collect_visits[OF b, of "\<lambda>c. c" "[]"] by (simp add: backwardNodes_def)
  show "toArray s = Some (map (val s) xs)"
    using collect_visits[OF f, of "val s" "[]"] by (simp add: toArray_def)
qed

text \<open>
  The invariant on whole-number indices. After every sequence of \<open>insertAtStart\<close>,
  \<open>insertAtEnd\<close>, \<open>insertAt\<close>, \<open>removeAt\<close> and \<open>moveNode\<close> operations on the empty list
  whose index arguments are whole numbers, the forward traversal from \<open>head\<close> and the
  backward traversal from \<open>tail\<close> both end; the count is the number of nodes the forward
  traversal visits, and the backward traversal visits the same nodes in exactly the
  reversed order. Position 0 is the head: \<open>getNodeAt(i)\<close> is the node the forward traversal
  visits at position \<open>i\<close>, and empty for every other whole \<open>i\<close>.
\<close>

theorem structural_integrity:
  "\<exists>xs. forwardNodes (run_ops ops) = Some xs
        \<and> backwardNodes (run_ops ops) = Some (rev xs)
        \<and> length_dll (run_ops ops) = int (length xs)
        \<and> (\<forall>i. getNodeAt (run_ops ops) i
                  = (if 0 \<le> i \<and> i < int (length xs) then Some (xs ! nat i) else None))"
proof -
  obtain xs where h: "holds (run_ops ops) xs" using run_ops_holds by blast
  show ?thesis
    using traversals_holds(1,2)[OF h] holds_ends(4)[OF h] getNodeAt_holds[OF h] by blast
qed

text \<open>Five operations, one of each kind: the three nodes created are 0, 1 and 2, and the nodes
  2 and 1 remain.\<close>

theorem structural_integrity_witness:
  "forwardNodes (run_ops [InsertAtEnd ''a'', InsertAtStart ''b'', InsertAt ''c'' 1, MoveNode 0 5, RemoveAt 1])
     = Some [2, 1]
   \<and> backwardNodes (run_ops [InsertAtEnd ''a'', InsertAtStart ''b'', InsertAt ''c'' 1, MoveNode 0 5, RemoveAt 1])
     = Some [1, 2]
   \<and> length_dll (run_ops [InsertAtEnd ''a'', InsertAtStart ''b'', InsertAt ''c'' 1, MoveNode 0 5, RemoveAt 1])
     = 2"
proof -
  let ?s0 = "empty_dll :: string dll"
  let ?s1 = "apply_op ?s0 (InsertAtEnd ''a'')"
  let ?s2 = "apply_op ?s1 (InsertAtStart ''b'')"
  let ?s3 = "apply_op ?s2 (InsertAt ''c'' 1)"
  let ?s4 = "apply_op ?s3 (MoveNode 0 5)"
  let ?s5 = "apply_op ?s4 (RemoveAt 1)"
  have f0: "fresh ?s0 = 0" by (simp add: empty_dll_def)
  have h1: "holds ?s1 [0]" and f1: "fresh ?s1 = 1"
    using apply_op_holds[OF empty_holds, of "InsertAtEnd ''a''"] f0 by simp_all
  have h2: "holds ?s2 [1, 0]" and f2: "fresh ?s2 = 2"
    using apply_op_holds[OF h1, of "InsertAtStart ''b''"] f1 by simp_all
  have h3: "holds ?s3 [1, 2, 0]" and f3: "fresh ?s3 = 3"
    using apply_op_holds[OF h2, of "InsertAt ''c'' 1"] f2 by (simp_all add: placed_def)
  have h4: "holds ?s4 [2, 0, 1]"
    using apply_op_holds(1)[OF h3, of "MoveNode 0 5"]
    by (simp add: moved_def placed_def without_def clampIndex_def)
  have h5: "holds ?s5 [2, 1]"
    using apply_op_holds(1)[OF h4, of "RemoveAt 1"] by (simp add: without_def)
  let ?s = "run_ops [InsertAtEnd ''a'', InsertAtStart ''b'', InsertAt ''c'' 1, MoveNode 0 5, RemoveAt 1]"
  have "?s = ?s5" by (simp add: run_ops_def)
  then have f: "forwardNodes ?s = Some [2, 1]" using traversals_holds(1)[OF h5] by simp
  obtain xs where "forwardNodes ?s = Some xs" "backwardNodes ?s = Some (rev xs)"
    "length_dll ?s = int (length xs)"
    using structural_integrity[of "[InsertAtEnd ''a'', InsertAtStart ''b'', InsertAt ''c'' 1, MoveNode 0 5, RemoveAt 1]"]
    by blast
  with f show ?thesis by simp
qed

section \<open>Moving a node\<close>

lemma map_moved:
  assumes "i < length xs"
  shows "map f (moved i j xs) = moved i j (map f xs)"
  using assms
  by (simp add: moved_def placed_def without_def Let_def take_map drop_map)

lemma moved_overshoot:
  assumes "i < length xs" "int (length xs) - 1 \<le> j"
  shows "moved i j xs = without i xs @ [xs ! i]"
proof -
  have "length (without i xs) = length xs - 1" using assms(1) by (simp add: without_def)
  then have "clampIndex j (length (without i xs)) = length (without i xs)"
    using assms by (simp add: clampIndex_def)
  then show ?thesis by (simp add: moved_def placed_def Let_def)
qed

text \<open>
  Claim C6. On a well-formed sequence holding the nodes \<open>xs\<close>, \<open>moveNode(i, i)\<close> changes
  nothing and returns the node at index \<open>i\<close> (none when \<open>i\<close> is out of range). For
  \<open>i \<noteq> j\<close> and \<open>i\<close> in range, \<open>moveNode(i, j)\<close> returns the node that was at \<open>i\<close> and
  leaves the sequence \<open>moved i j xs\<close>: that node taken out, \<open>j\<close> clamped into
  \<open>[0, size]\<close> with the size after the removal, the node put back there. The values follow
  their nodes, and a target at or beyond the last index appends the node.
\<close>

theorem moveNode_semantics:
  "holds s xs \<Longrightarrow>
     moveNode s i i = ((if 0 \<le> i \<and> i < int (length xs) then Some (xs ! nat i) else None), s)
     \<and> (i \<noteq> j \<and> 0 \<le> i \<and> i < int (length xs) \<longrightarrow>
          fst (moveNode s i j) = Some (xs ! nat i)
          \<and> holds (snd (moveNode s i j)) (moved (nat i) j xs)
          \<and> toArray (snd (moveNode s i j)) = Some (moved (nat i) j (map (val s) xs))
          \<and> (int (length xs) - 1 \<le> j \<longrightarrow>
                moved (nat i) j xs = without (nat i) xs @ [xs ! nat i]))"
proof (intro conjI impI)
  assume h: "holds s xs"
  show "moveNode s i i = ((if 0 \<le> i \<and> i < int (length xs) then Some (xs ! nat i) else None), s)"
    using getNodeAt_holds[OF h, of i] by (simp add: moveNode_same)
  assume r: "i \<noteq> j \<and> 0 \<le> i \<and> i < int (length xs)"
  then have ni: "nat i < length xs" by linarith
  note m = moveNode_holds[OF h, of i j]
  show "fst (moveNode s i j) = Some (xs ! nat i)" using r m(1) by simp
  show hm: "holds (snd (moveNode s i j)) (moved (nat i) j xs)" using r m(2) by simp
  have "toArray (snd (moveNode s i j)) = Some (map (val (snd (moveNode s i j))) (moved (nat i) j xs))"
    using hm by (rule traversals_holds(3))
  then show "toArray (snd (moveNode s i j)) = Some (moved (nat i) j (map (val s) xs))"
    using r m(3) ni by (simp add: map_moved)
  show "moved (nat i) j xs = without (nat i) xs @ [xs ! nat i]" if "int (length xs) - 1 \<le> j"
    using ni that by (rule moved_overshoot)
qed

text \<open>The sequence A, B, C: \<open>moveNode(0, 99)\<close> returns the node of A and leaves B, C, A.\<close>

theorem moveNode_semantics_witness:
  "toArray (run_ops [InsertAtEnd ''A'', InsertAtEnd ''B'', InsertAtEnd ''C''])
     = Some [''A'', ''B'', ''C'']
   \<and> fst (moveNode (run_ops [InsertAtEnd ''A'', InsertAtEnd ''B'', InsertAtEnd ''C'']) 0 99) = Some 0
   \<and> toArray (snd (moveNode (run_ops [InsertAtEnd ''A'', InsertAtEnd ''B'', InsertAtEnd ''C'']) 0 99))
     = Some [''B'', ''C'', ''A'']"
proof -
  let ?s0 = "empty_dll :: string dll"
  let ?s1 = "apply_op ?s0 (InsertAtEnd ''A'')"
  let ?s2 = "apply_op ?s1 (InsertAtEnd ''B'')"
  let ?s3 = "apply_op ?s2 (InsertAtEnd ''C'')"
  have f0: "fresh ?s0 = 0" by (simp add: empty_dll_def)
  have h1: "holds ?s1 [0]" and f1: "fresh ?s1 = 1"
    using apply_op_holds[OF empty_holds, of "InsertAtEnd ''A''"] f0 by simp_all
  have h2: "holds ?s2 [0, 1]" and f2: "fresh ?s2 = 2"
    using apply_op_holds[OF h1, of "InsertAtEnd ''B''"] f1 by simp_all
  have h3: "holds ?s3 [0, 1, 2]"
    using apply_op_holds(1)[OF h2, of "InsertAtEnd ''C''"] f2 by simp
  have v: "map (val ?s3) [0, 1, 2] = [''A'', ''B'', ''C'']"
    using f0 f1 f2 by (simp add: insert_values)
  have s: "run_ops [InsertAtEnd ''A'', InsertAtEnd ''B'', InsertAtEnd ''C''] = ?s3"
    by (simp add: run_ops_def)
  have m: "moved 0 99 [''A'', ''B'', ''C''] = [''B'', ''C'', ''A'']"
    by (simp add: moved_def placed_def without_def clampIndex_def)
  show ?thesis
    using moveNode_semantics[OF h3, of 0 99] traversals_holds(3)[OF h3] v m
    by (simp add: s)
qed

section \<open>Removing a track\<close>

lemma indexOfNode_holds:
  assumes "holds s xs"
  shows "indexOfNode s node = Some (indexIn xs node)"
proof (cases node)
  case None
  then show ?thesis by (simp add: indexOfNode_def indexIn_def)
next
  case (Some n)
  have "visits (nxt s) xs (head s)" using assms by (simp add: holds_def)
  from indexOfLoop_visits[OF this, of n 0] Some show ?thesis
    by (simp add: indexOfNode_def indexIn_def)
qed

lemma neighbours_at:
  assumes h: "holds s xs" and i: "i < length xs"
  shows "nxt s (xs ! i) = (if Suc i < length xs then Some (xs ! Suc i) else None)"
    and "prv s (xs ! i) = (if 0 < i then Some (xs ! (i - 1)) else None)"
proof -
  have xs: "xs = take i xs @ xs ! i # drop (Suc i) xs" using i by (rule split_at_index)
  then have hs: "holds s (take i xs @ xs ! i # drop (Suc i) xs)" using h by simp
  note l = holds_links[OF hs]
  have "first (drop (Suc i) xs) = (if Suc i < length xs then Some (xs ! Suc i) else None)"
    by (cases "Suc i < length xs") (simp_all add: Cons_nth_drop_Suc[symmetric])
  then show "nxt s (xs ! i) = (if Suc i < length xs then Some (xs ! Suc i) else None)"
    using l(1) by simp
  have "final (take i xs) = (if 0 < i then Some (xs ! (i - 1)) else None)"
  proof (cases i)
    case 0
    then show ?thesis by simp
  next
    case (Suc k)
    then have "take i xs = take k xs @ [xs ! k]" using i by (simp add: take_Suc_conv_app_nth)
    then show ?thesis using Suc by simp
  qed
  then show "prv s (xs ! i) = (if 0 < i then Some (xs ! (i - 1)) else None)"
    using l(2) by simp
qed

lemma replacement_at:
  assumes h: "holds s xs" and i: "i < length xs"
  shows "(case nxt s (xs ! i) of Some n \<Rightarrow> Some n | None \<Rightarrow> prv s (xs ! i)) = replacementOf xs i"
  using neighbours_at[OF h i] by (simp add: replacementOf_def)

lemma replacement_in_rest:
  assumes d: "distinct xs" and i: "i < length xs" and r: "replacementOf xs i = Some r"
  shows "r \<in> set (without i xs)" and "r \<noteq> xs ! i"
proof -
  have rin: "r \<in> set xs" and rx: "r \<noteq> xs ! i"
    using r d i by (auto simp add: replacementOf_def nth_eq_iff_index_eq split: if_splits)
  show "r \<noteq> xs ! i" by (rule rx)
  have "xs = take i xs @ xs ! i # drop (Suc i) xs" using i by (rule split_at_index)
  then have "set xs = set (take i xs) \<union> {xs ! i} \<union> set (drop (Suc i) xs)"
    by (metis list.simps(15) set_append Un_insert_right sup_bot.right_neutral Un_assoc insert_is_Un)
  then show "r \<in> set (without i xs)" using rin rx by (auto simp add: without_def)
qed

lemma release_eq:
  "releaseTrackResources s t = s\<lparr>revoked := revoked s @ resourcesOf t\<rparr>"
  by (simp add: releaseTrackResources_def resourcesOf_def Let_def split: option.splits)

lemma removeTrack_not_current:
  assumes h: "holds (playlist s) xs" and r: "0 \<le> i" "i < int (length xs)"
    and c: "currentNode s \<noteq> Some (xs ! nat i)"
  shows "removeTrack s i =
           Some (s\<lparr>playlist := detachNode (playlist s) (xs ! nat i),
                   revoked := revoked s @ resourcesOf (val (playlist s) (xs ! nat i)),
                   tracks := map (val (playlist s)) (without (nat i) xs),
                   currentTrackIndex := indexIn (without (nat i) xs) (currentNode s)\<rparr>)"
proof -
  let ?x = "xs ! nat i" and ?rest = "without (nat i) xs"
  let ?pl = "detachNode (playlist s) ?x"
  have ni: "nat i < length xs" using r by linarith
  have g: "getNodeAt (playlist s) i = Some ?x" using getNodeAt_holds[OF h, of i] r by simp
  have hd: "holds ?pl ?rest" using h ni by (rule detachNode_at)
  have ta: "toArray ?pl = Some (map (val (playlist s)) ?rest)"
    using traversals_holds(3)[OF hd] by (simp add: detachNode_node)
  have ix: "indexOfNode ?pl (currentNode s) = Some (indexIn ?rest (currentNode s))"
    using hd by (rule indexOfNode_holds)
  have c': "Some ?x \<noteq> currentNode s" using c by auto
  show ?thesis
    using g c' ta ix
    by (simp add: removeTrack_def removeNode_Some release_eq refreshPlaylistSnapshot_def Let_def)
qed

lemma removeTrack_current_last:
  assumes h: "holds (playlist s) xs" and r: "0 \<le> i" "i < int (length xs)"
    and c: "currentNode s = Some (xs ! nat i)" and n: "replacementOf xs (nat i) = None"
  shows "removeTrack s i =
           Some (s\<lparr>playlist := detachNode (playlist s) (xs ! nat i),
                   revoked := revoked s @ resourcesOf (val (playlist s) (xs ! nat i)),
                   audio := (audio_pause (audio s))\<lparr>src := ''''\<rparr>,
                   isPlaying := False, isLoadingTrack := False,
                   currentNode := None, duration := Fin 0, currentTime := Fin 0,
                   tracks := map (val (playlist s)) (without (nat i) xs),
                   currentTrackIndex := - 1\<rparr>)"
proof -
  let ?x = "xs ! nat i" and ?rest = "without (nat i) xs"
  let ?pl = "detachNode (playlist s) ?x"
  have ni: "nat i < length xs" using r by linarith
  have g: "getNodeAt (playlist s) i = Some ?x" using getNodeAt_holds[OF h, of i] r by simp
  have hd: "holds ?pl ?rest" using h ni by (rule detachNode_at)
  have ta: "toArray ?pl = Some (map (val (playlist s)) ?rest)"
    using traversals_holds(3)[OF hd] by (simp add: detachNode_node)
  have ix: "indexOfNode ?pl None = Some (- 1)" by (simp add: indexOfNode_def)
  have rp: "(case nxt (playlist s) ?x of Some n \<Rightarrow> Some n | None \<Rightarrow> prv (playlist s) ?x) = None"
    using replacement_at[OF h ni] n by simp
  show ?thesis
    using g c ta ix rp
    by (simp add: removeTrack_def removeNode_Some release_eq refreshPlaylistSnapshot_def Let_def)
qed

lemma removeTrack_current_replaced:
  assumes h: "holds (playlist s) xs" and r: "0 \<le> i" "i < int (length xs)"
    and c: "currentNode s = Some (xs ! nat i)" and n: "replacementOf xs (nat i) = Some q"
  shows "removeTrack s i =
           Some (s\<lparr>playlist := detachNode (playlist s) (xs ! nat i),
                   revoked := revoked s @ resourcesOf (val (playlist s) (xs ! nat i)),
                   audio := (if isPlaying s then audio_play else (\<lambda>a. a))
                              (audio_load ((audio_pause (audio s))
                                 \<lparr>src := track_url (val (playlist s) q)\<rparr>)),
                   isPlaying := False, isLoadingTrack := True,
                   currentNode := Some q,
                   duration := (case track_duration (val (playlist s) q) of
                                  None \<Rightarrow> Fin 0 | Some d \<Rightarrow> d),
                   currentTime := Fin 0,
                   tracks := map (val (playlist s)) (without (nat i) xs),
                   currentTrackIndex := indexIn (without (nat i) xs) (Some q)\<rparr>)"
proof -
  let ?x = "xs ! nat i" and ?rest = "without (nat i) xs"
  let ?pl = "detachNode (playlist s) ?x"
  have ni: "nat i < length xs" using r by linarith
  have g: "getNodeAt (playlist s) i = Some ?x" using getNodeAt_holds[OF h, of i] r by simp
  have hd: "holds ?pl ?rest" using h ni by (rule detachNode_at)
  have ta: "toArray ?pl = Some (map (val (playlist s)) ?rest)"
    using traversals_holds(3)[OF hd] by (simp add: detachNode_node)
  have ix: "indexOfNode ?pl (Some q) = Some (indexIn ?rest (Some q))"
    using hd by (rule indexOfNode_holds)
  have rp: "(case nxt (playlist s) ?x of Some n \<Rightarrow> Some n | None \<Rightarrow> prv (playlist s) ?x) = Some q"
    using replacement_at[OF h ni] n by simp
  have qx: "q \<noteq> ?x" using replacement_in_rest(2)[OF holds_ends(3)[OF h] ni n] .
  show ?thesis
    using g c ta ix rp qx
    by (simp add: removeTrack_def removeNode_Some release_eq refreshPlaylistSnapshot_def
        selectNode_def playInternal_def detachNode_node Let_def)
qed

lemma demo_playlist:
  "holds (playlist demo_session) [0, 1]"
  "val (playlist demo_session) 0 = demo_track ''a''"
  "val (playlist demo_session) 1 = demo_track ''b''"
proof -
  let ?s1 = "snd (insertAtEnd (empty_dll :: track dll) (demo_track ''a''))"
  have f0: "fresh (empty_dll :: track dll) = 0" by (simp add: empty_dll_def)
  have h1: "holds ?s1 [0]" using insertAtEnd_holds[OF empty_holds, of "demo_track ''a''"] f0 by simp
  have f1: "fresh ?s1 = 1" using fresh_after(2)[of empty_dll "demo_track ''a''"] f0 by simp
  have "holds (snd (insertAtEnd ?s1 (demo_track ''b''))) [0, 1]"
    using insertAtEnd_holds[OF h1, of "demo_track ''b''"] f1 by simp
  then show "holds (playlist demo_session) [0, 1]" by (simp add: demo_session_def)
  show "val (playlist demo_session) 0 = demo_track ''a''"
    "val (playlist demo_session) 1 = demo_track ''b''"
    using f0 f1 by (simp_all add: demo_session_def insert_values)
qed

section \<open>Indices out of range\<close>

text \<open>
  Whole-number indices out of range. For every whole index below 0 or not below the count,
  \<open>getNodeAt\<close> returns empty, and \<open>playTrack\<close> and \<open>removeTrack\<close> return with the session
  exactly as it was.
\<close>

theorem out_of_range_is_no_op:
  "i < 0 \<or> length_dll (playlist s) \<le> i \<Longrightarrow>
     getNodeAt (playlist s) i = None \<and> playTrack s i = Some s \<and> removeTrack s i = Some s"
  by (auto simp add: getNodeAt_def playTrack_def removeTrack_def)

text \<open>In the demo session of two tracks, the indices 2 and \<open>-1\<close> are out of range.\<close>

theorem out_of_range_is_no_op_witness:
  "getNodeAt (playlist demo_session) 2 = None
   \<and> playTrack demo_session 2 = Some demo_session
   \<and> removeTrack demo_session 2 = Some demo_session
   \<and> getNodeAt (playlist demo_session) (- 1) = None
   \<and> playTrack demo_session (- 1) = Some demo_session
   \<and> removeTrack demo_session (- 1) = Some demo_session"
proof -
  have "length_dll (playlist demo_session) = 2"
    using holds_ends(4)[OF demo_playlist(1)] by simp
  then show ?thesis
    using out_of_range_is_no_op[of 2 demo_session] out_of_range_is_no_op[of "- 1" demo_session]
    by simp
qed

text \<open>
  Claim C8. In a session whose queue holds the nodes \<open>xs\<close>, removing the track at a valid
  index \<open>i\<close> returns; the node is out of the queue, the URLs of its track are revoked, and
  the snapshot and the displayed index are those of the queue that remains. When the node
  was the current one, playback is stopped (\<open>isPlaying\<close> is false) and the cursor is its
  successor when it had one, else its predecessor, else empty; in the last case the
  session is idle: index \<open>-1\<close>, duration and current time 0, source cleared, handle paused.
  When the node was not the current one, nothing but the queue, the revoked URLs, the
  snapshot and the displayed index has changed.
\<close>

theorem removeTrack_effect:
  "holds (playlist s) xs \<and> 0 \<le> i \<and> i < int (length xs) \<Longrightarrow>
     (\<exists>s'. removeTrack s i = Some s'
        \<and> holds (playlist s') (without (nat i) xs)
        \<and> revoked s' = revoked s @ resourcesOf (val (playlist s) (xs ! nat i))
        \<and> tracks s' = map (val (playlist s)) (without (nat i) xs)
        \<and> currentTrackIndex s' = indexIn (without (nat i) xs) (currentNode s')
        \<and> (currentNode s = Some (xs ! nat i) \<longrightarrow>
              isPlaying s' = False
              \<and> currentNode s' = replacementOf xs (nat i)
              \<and> (replacementOf xs (nat i) = None \<longrightarrow>
                    currentTrackIndex s' = - 1 \<and> duration s' = Fin 0 \<and> currentTime s' = Fin 0
                    \<and> src (audio s') = '''' \<and> paused (audio s')))
        \<and> (currentNode s \<noteq> Some (xs ! nat i) \<longrightarrow>
              s' = s\<lparr>playlist := playlist s', revoked := revoked s', tracks := tracks s',
                      currentTrackIndex := currentTrackIndex s'\<rparr>))"
proof -
  assume a: "holds (playlist s) xs \<and> 0 \<le> i \<and> i < int (length xs)"
  then have h: "holds (playlist s) xs" and r: "0 \<le> i" "i < int (length xs)" by simp_all
  have ni: "nat i < length xs" using r by linarith
  have hd: "holds (detachNode (playlist s) (xs ! nat i)) (without (nat i) xs)"
    using h ni by (rule detachNode_at)
  show ?thesis
  proof (cases "currentNode s = Some (xs ! nat i)")
    case False
    show ?thesis
      using removeTrack_not_current[OF h r False] hd False by simp
  next
    case True
    show ?thesis
    proof (cases "replacementOf xs (nat i)")
      case None
      show ?thesis
        using removeTrack_current_last[OF h r True None] hd True None
        by (simp add: indexIn_def audio_pause_def)
    next
      case (Some q)
      show ?thesis
        using removeTrack_current_replaced[OF h r True Some] hd True Some by simp
    qed
  qed
qed

text \<open>Removing the playing track \<open>a\<close> of the demo session makes \<open>b\<close> current.\<close>

theorem removeTrack_effect_witness:
  "\<exists>s'. removeTrack demo_session 0 = Some s'
        \<and> holds (playlist s') [1]
        \<and> revoked s' = [''blob:a'']
        \<and> tracks s' = [demo_track ''b'']
        \<and> currentTrackIndex s' = 0
        \<and> isPlaying s' = False
        \<and> currentNode s' = Some 1"
proof -
  have c: "currentNode demo_session = Some 0" "revoked demo_session = []"
    by (simp_all add: demo_session_def new_app_def)
  have w: "without 0 [0, 1::nat] = [1]" "replacementOf [0, 1::nat] 0 = Some 1"
    "resourcesOf (demo_track ''a'') = [''blob:a'']" "indexIn [1] (Some 1) = 0"
    by (simp_all add: without_def replacementOf_def resourcesOf_def demo_track_def indexIn_def)
  show ?thesis
    using removeTrack_effect[of demo_session "[0, 1]" 0] demo_playlist c w
    by auto
qed

text \<open>
  Claim C10. When the current node is removed and a successor or predecessor \<open>q\<close> takes
  over, the source of the playback handle is the URL of \<open>q\<close>'s track and it is loaded
  once; \<open>play()\<close> is called once more if and only if \<open>isPlaying\<close> was true when the track
  was removed, and otherwise the handle is left paused. \<open>isPlaying\<close> itself is false on
  return in both cases: it is the answer to \<open>play()\<close> that sets it again.
\<close>

theorem replacement_plays_iff_was_playing:
  "holds (playlist s) xs \<and> 0 \<le> i \<and> i < int (length xs)
     \<and> currentNode s = Some (xs ! nat i) \<and> replacementOf xs (nat i) = Some q \<Longrightarrow>
     (\<exists>s'. removeTrack s i = Some s'
        \<and> currentNode s' = Some q
        \<and> src (audio s') = track_url (val (playlist s) q)
        \<and> loadCalls (audio s') = Suc (loadCalls (audio s))
        \<and> playCalls (audio s') = (if isPlaying s then Suc (playCalls (audio s)) else playCalls (audio s))
        \<and> paused (audio s') = (\<not> isPlaying s)
        \<and> isPlaying s' = False
        \<and> isPlaying (onPlayFulfilled s') = True)"
proof -
  assume a: "holds (playlist s) xs \<and> 0 \<le> i \<and> i < int (length xs)
     \<and> currentNode s = Some (xs ! nat i) \<and> replacementOf xs (nat i) = Some q"
  then have h: "holds (playlist s) xs" and r: "0 \<le> i" "i < int (length xs)"
    and c: "currentNode s = Some (xs ! nat i)" and q: "replacementOf xs (nat i) = Some q"
    by simp_all
  show ?thesis
    using removeTrack_current_replaced[OF h r c q]
    by (simp add: audio_play_def audio_load_def audio_pause_def onPlayFulfilled_def)
qed

text \<open>
  In the demo session \<open>a\<close> is playing: removing it plays \<open>b\<close>. With the same session paused,
  removing \<open>a\<close> selects \<open>b\<close> and leaves it paused.
\<close>

theorem replacement_plays_iff_was_playing_witness:
  "(\<exists>s'. removeTrack demo_session 0 = Some s'
        \<and> currentNode s' = Some 1 \<and> src (audio s') = ''blob:b''
        \<and> playCalls (audio s') = 2 \<and> paused (audio s') = False)
   \<and> (\<exists>s'. removeTrack (demo_session\<lparr>isPlaying := False\<rparr>) 0 = Some s'
        \<and> currentNode s' = Some 1 \<and> src (audio s') = ''blob:b''
        \<and> playCalls (audio s') = 1 \<and> paused (audio s') = True)"
proof -
  have c: "currentNode demo_session = Some 0" "isPlaying demo_session"
    "playCalls (audio demo_session) = 1"
    by (simp_all add: demo_session_def new_app_def new_audio_def)
  have w: "replacementOf [0, 1::nat] 0 = Some 1" "track_url (demo_track ''b'') = ''blob:b''"
    by (simp_all add: replacementOf_def demo_track_def)
  have "\<exists>s'. removeTrack demo_session 0 = Some s'
        \<and> currentNode s' = Some 1 \<and> src (audio s') = ''blob:b''
        \<and> playCalls (audio s') = 2 \<and> paused (audio s') = False"
    using replacement_plays_iff_was_playing[of demo_session "[0, 1]" 0 1] demo_playlist c w
    by auto
  moreover have "\<exists>s'. removeTrack (demo_session\<lparr>isPlaying := False\<rparr>) 0 = Some s'
        \<and> currentNode s' = Some 1 \<and> src (audio s') = ''blob:b''
        \<and> playCalls (audio s') = 1 \<and> paused (audio s') = True"
    using replacement_plays_iff_was_playing[of "demo_session\<lparr>isPlaying := False\<rparr>" "[0, 1]" 0 1]
      demo_playlist c w
    by auto
  ultimately show ?thesis by blast
qed

section \<open>Indices that are not whole numbers\<close>

text \<open>On whole numbers the number-indexed functions are the integer-indexed ones.\<close>

lemma walk_number_whole: "walk_number f (real_of_int k) c = walk f k c"
proof (induction f k c rule: walk.induct)
  case (1 f steps current)
  show ?case
  proof (cases "steps > 0")
    case False
    then show ?thesis by (subst walk_number.simps, subst walk.simps) simp
  next
    case True
    show ?thesis
    proof (cases current)
      case None
      then show ?thesis using True by (subst walk_number.simps, subst walk.simps) simp
    next
      case (Some c)
      have "walk_number f (real_of_int (steps - 1)) (f c) = walk f (steps - 1) (f c)"
        using 1[OF True Some] .
      then show ?thesis using True Some
        by (subst walk_number.simps, subst walk.simps) simp
    qed
  qed
qed

lemma js_whole:
  "js_less (Fin (real_of_int i)) (Fin 0) \<longleftrightarrow> i < 0"
  "js_le (Fin (real_of_int n)) (Fin (real_of_int i)) \<longleftrightarrow> n \<le> i"
  "js_le (Fin (real_of_int i)) (Fin 0) \<longleftrightarrow> i \<le> 0"
  "js_le (Fin (real m)) (Fin (real_of_int i)) \<longleftrightarrow> int m \<le> i"
  by (auto simp add: js_le_def)

lemma getNodeAt_number_whole: "getNodeAt_number s (Fin (real_of_int i)) = getNodeAt s i"
proof -
  have "real_of_int (length_dll s) - 1 - real_of_int i = real_of_int (length_dll s - 1 - i)"
    by simp
  then show ?thesis
    by (simp only: getNodeAt_number_def getNodeAt_def js_whole walk_number_whole jsnum.case)
qed

lemma insertAt_number_whole: "insertAt_number s v (Fin (real_of_int i)) = insertAt s v i"
  by (simp add: insertAt_number_def insertAt_def js_whole getNodeAt_number_whole)

lemma playTrack_number_whole: "playTrack_number s (Fin (real_of_int i)) = playTrack s i"
  by (simp add: playTrack_number_def playTrack_def js_whole getNodeAt_number_whole)

lemma removeTrack_number_whole: "removeTrack_number s (Fin (real_of_int i)) = removeTrack s i"
  by (simp add: removeTrack_number_def removeTrack_def getNodeAt_number_whole)

lemma getNodeAt_number_NaN: "getNodeAt_number s NaN = tail s"
  by (simp add: getNodeAt_number_def js_le_def)

lemma removeTrack_number_as:
  "getNodeAt_number (playlist s) x = getNodeAt (playlist s) i \<Longrightarrow>
     removeTrack_number s x = removeTrack s i"
  by (simp add: removeTrack_number_def removeTrack_def)

lemma collect_steps:
  "collect f g None acc = Some acc"
  "collect f g (Some c) acc = collect f g (f c) (acc @ [g c])"
  by (subst collect.simps, simp)+

lemma walk_number_done: "steps \<le> 0 \<Longrightarrow> walk_number f steps c = c"
  by (subst walk_number.simps) simp

lemma one_node_list:
  "snd (insertAtEnd (empty_dll :: string dll) ''a'')
   = \<lparr>nxt = (\<lambda>a. None), prv = (\<lambda>a. None), val = (\<lambda>a. undefined)(0 := ''a''), fresh = 1,
      head = Some 0, tail = Some 0, length_dll = 1\<rparr>"
  by (simp add: insertAtEnd_def createNode_def empty_dll_def)

lemma one_node_insert_before_tail:
  assumes "getNodeAt_number (snd (insertAtEnd (empty_dll :: string dll) ''a'')) x = Some 0"
    and "\<not> js_le x (Fin 0)" "\<not> js_le (Fin 1) x"
  shows "snd (insertAt_number (snd (insertAtEnd empty_dll ''a'')) ''x'' x)
         = \<lparr>nxt = (\<lambda>a. None)(1 := Some 0), prv = (\<lambda>a. None)(0 := Some 1),
            val = (\<lambda>a. undefined)(0 := ''a'', 1 := ''x''), fresh = 2,
            head = Some 0, tail = Some 0, length_dll = 2\<rparr>"
proof -
  have "snd (insertAt_number \<lparr>nxt = (\<lambda>a. None), prv = (\<lambda>a. None),
              val = (\<lambda>a. undefined)(0 := ''a''), fresh = 1,
              head = Some 0, tail = Some 0, length_dll = 1\<rparr> ''x'' x)
         = \<lparr>nxt = (\<lambda>a. None)(1 := Some 0), prv = (\<lambda>a. None)(0 := Some 1),
            val = (\<lambda>a. undefined)(0 := ''a'', 1 := ''x''), fresh = 2,
            head = Some 0, tail = Some 0, length_dll = 2\<rparr>"
    using assms by (simp add: one_node_list insertAt_number_def createNode_def fun_upd_twist)
  then show ?thesis by (simp add: one_node_list)
qed

lemma broken_chain_traversals:
  "forwardNodes \<lparr>nxt = (\<lambda>a. None)(1 := Some 0), prv = (\<lambda>a. None)(0 := Some 1),
            val = v, fresh = 2, head = Some 0, tail = Some 0, length_dll = 2\<rparr> = Some [0]"
  "backwardNodes \<lparr>nxt = (\<lambda>a. None)(1 := Some 0), prv = (\<lambda>a. None)(0 := Some 1),
            val = v, fresh = 2, head = Some 0, tail = Some 0, length_dll = 2\<rparr> = Some [0, 1]"
  by (simp_all add: forwardNodes_def backwardNodes_def collect_steps)

text \<open>
  Claim C1, at the input where the code departs from it. After \<open>insertAtEnd('a')\<close> the list
  holds one node. For \<open>insertAt('x', 0.75)\<close> neither \<open>index <= 0\<close> nor \<open>index >= length\<close>
  is true; \<open>getNodeAt(0.75)\<close> is not stopped by its range guard, takes the backward branch
  with \<open>-0.75\<close> steps and returns the tail, which is the head; the new node is linked in before it, and
  \<open>head\<close> is left as it was. The count is 2, the forward traversal from \<open>head\<close> visits one
  node, the backward traversal from \<open>tail\<close> visits two. \<open>insertAt('x', NaN)\<close> does the same.
  The branch of \<open>moveNode\<close> that links a node in before its target assigns \<open>head\<close> when the
  target has no predecessor; the branch of \<open>insertAt\<close> has no such assignment.
\<close>

theorem insertAt_fraction_breaks_chain:
  "length_dll (snd (insertAt_number (snd (insertAtEnd empty_dll ''a'')) ''x'' (Fin (3 / 4)))) = 2
   \<and> forwardNodes (snd (insertAt_number (snd (insertAtEnd empty_dll ''a'')) ''x'' (Fin (3 / 4))))
       = Some [0]
   \<and> backwardNodes (snd (insertAt_number (snd (insertAtEnd empty_dll ''a'')) ''x'' (Fin (3 / 4))))
       = Some [0, 1]
   \<and> getNodeAt_number (snd (insertAtEnd (empty_dll :: string dll) ''a'')) (Fin (3 / 4)) = Some 0
   \<and> length_dll (snd (insertAt_number (snd (insertAtEnd empty_dll ''a'')) ''x'' NaN)) = 2
   \<and> forwardNodes (snd (insertAt_number (snd (insertAtEnd empty_dll ''a'')) ''x'' NaN)) = Some [0]
   \<and> backwardNodes (snd (insertAt_number (snd (insertAtEnd empty_dll ''a'')) ''x'' NaN))
       = Some [0, 1]"
proof -
  let ?s1 = "snd (insertAtEnd (empty_dll :: string dll) ''a'')"
  have g: "getNodeAt_number ?s1 (Fin (3 / 4)) = Some 0"
    by (simp add: one_node_list getNodeAt_number_def js_le_def walk_number_done)
  have n: "getNodeAt_number ?s1 NaN = Some 0"
    by (simp add: one_node_list getNodeAt_number_NaN)
  have a: "snd (insertAt_number ?s1 ''x'' (Fin (3 / 4)))
         = \<lparr>nxt = (\<lambda>a. None)(1 := Some 0), prv = (\<lambda>a. None)(0 := Some 1),
            val = (\<lambda>a. undefined)(0 := ''a'', 1 := ''x''), fresh = 2,
            head = Some 0, tail = Some 0, length_dll = 2\<rparr>"
    using g by (rule one_node_insert_before_tail) (simp_all add: js_le_def)
  have b: "snd (insertAt_number ?s1 ''x'' NaN)
         = \<lparr>nxt = (\<lambda>a. None)(1 := Some 0), prv = (\<lambda>a. None)(0 := Some 1),
            val = (\<lambda>a. undefined)(0 := ''a'', 1 := ''x''), fresh = 2,
            head = Some 0, tail = Some 0, length_dll = 2\<rparr>"
    using n by (rule one_node_insert_before_tail) (simp_all add: js_le_def)
  show ?thesis
    by (simp only: a b g broken_chain_traversals dll.simps simp_thms)
qed

section \<open>An index that is not a number\<close>

lemma demo_tail: "tail (playlist demo_session) = Some 1" "length (tracks demo_session) = 2"
  using holds_ends(2)[OF demo_playlist(1)] by (simp_all add: demo_session_def final_Cons)

text \<open>
  Claim C9, at the input where the code departs from it. NaN is not in \<open>[0, count)\<close>, yet
  both comparisons of the guard \<open>index < 0 || index >= length\<close> are false for it, in
  \<open>getNodeAt\<close> and in \<open>playTrack\<close> alike, and \<open>getNodeAt(NaN)\<close> returns the tail. In the
  demo session of two tracks, \<open>removeTrack(NaN)\<close> removes the last track \<open>b\<close> and revokes
  its URL, and \<open>playTrack(NaN)\<close> makes \<open>b\<close> the current track and plays it. \<open>seekTo\<close>
  tests its argument with \<open>Number.isFinite\<close> first; these three functions have no such test.
\<close>

theorem nan_index_reaches_the_tail:
  "\<not> (js_le (Fin 0) NaN \<and> js_less NaN (Fin (real_of_int (length_dll (playlist demo_session)))))
   \<and> getNodeAt_number (playlist demo_session) NaN = Some 1
   \<and> removeTrack_number demo_session NaN \<noteq> Some demo_session
   \<and> (\<exists>s'. removeTrack_number demo_session NaN = Some s'
          \<and> tracks s' = [demo_track ''a''] \<and> revoked s' = [''blob:b''])
   \<and> playTrack_number demo_session NaN \<noteq> Some demo_session
   \<and> (\<exists>s'. playTrack_number demo_session NaN = Some s'
          \<and> currentNode s' = Some 1 \<and> src (audio s') = ''blob:b'' \<and> playCalls (audio s') = 2)"
proof -
  note h = demo_playlist(1)
  have g: "getNodeAt_number (playlist demo_session) NaN = Some 1"
    by (simp add: getNodeAt_number_NaN demo_tail)
  have g1: "getNodeAt (playlist demo_session) 1 = Some 1"
    using getNodeAt_holds[OF h, of 1] by simp
  have c: "currentNode demo_session = Some 0" "revoked demo_session = []"
    "tracks demo_session = [demo_track ''a'', demo_track ''b'']"
    "playCalls (audio demo_session) = 1"
    by (simp_all add: demo_session_def new_app_def new_audio_def)
  have "removeTrack_number demo_session NaN = removeTrack demo_session 1"
    using g g1 by (intro removeTrack_number_as) simp
  also have "\<dots> = Some (demo_session\<lparr>playlist := detachNode (playlist demo_session) ([0, 1] ! nat 1),
                   revoked := revoked demo_session @ resourcesOf (val (playlist demo_session) ([0, 1] ! nat 1)),
                   tracks := map (val (playlist demo_session)) (without (nat 1) [0, 1]),
                   currentTrackIndex := indexIn (without (nat 1) [0, 1]) (currentNode demo_session)\<rparr>)"
    using c by (intro removeTrack_not_current[OF h]) simp_all
  finally have r: "removeTrack_number demo_session NaN
      = Some (demo_session\<lparr>playlist := detachNode (playlist demo_session) 1,
                   revoked := [''blob:b''], tracks := [demo_track ''a''],
                   currentTrackIndex := 0\<rparr>)"
    using c demo_playlist(2,3)
    by (simp add: without_def resourcesOf_def demo_track_def indexIn_def)
  have ix: "indexOfNode (playlist demo_session) (Some 1) = Some 1"
    using indexOfNode_holds[OF h, of "Some 1"] by (simp add: indexIn_def)
  have p: "playTrack_number demo_session NaN
      = Some (demo_session\<lparr>currentNode := Some 1, currentTrackIndex := 1, isLoadingTrack := True,
                 duration := Fin 0, currentTime := Fin 0,
                 audio := audio_play (audio_load ((audio demo_session)\<lparr>src := ''blob:b''\<rparr>))\<rparr>)"
    using g c ix demo_playlist(3)
    by (simp add: playTrack_number_def js_le_def selectNode_def playInternal_def Let_def
        demo_track_def)
  have ne1: "removeTrack_number demo_session NaN \<noteq> Some demo_session"
  proof
    assume "removeTrack_number demo_session NaN = Some demo_session"
    with r have "demo_session\<lparr>playlist := detachNode (playlist demo_session) 1,
                   revoked := [''blob:b''], tracks := [demo_track ''a''],
                   currentTrackIndex := 0\<rparr> = demo_session" by simp
    then have "tracks (demo_session\<lparr>playlist := detachNode (playlist demo_session) 1,
                   revoked := [''blob:b''], tracks := [demo_track ''a''],
                   currentTrackIndex := 0\<rparr>) = tracks demo_session" by (rule arg_cong)
    with c(3) show False by simp
  qed
  have ne2: "playTrack_number demo_session NaN \<noteq> Some demo_session"
  proof
    assume "playTrack_number demo_session NaN = Some demo_session"
    with p have "demo_session\<lparr>currentNode := Some 1, currentTrackIndex := 1, isLoadingTrack := True,
                 duration := Fin 0, currentTime := Fin 0,
                 audio := audio_play (audio_load ((audio demo_session)\<lparr>src := ''blob:b''\<rparr>))\<rparr>
                 = demo_session" by simp
    then have "currentNode (demo_session\<lparr>currentNode := Some 1, currentTrackIndex := 1, isLoadingTrack := True,
                 duration := Fin 0, currentTime := Fin 0,
                 audio := audio_play (audio_load ((audio demo_session)\<lparr>src := ''blob:b''\<rparr>))\<rparr>)
                 = currentNode demo_session" by (rule arg_cong)
    with c(1) show False by simp
  qed
  have o: "\<not> (js_le (Fin 0) NaN
              \<and> js_less NaN (Fin (real_of_int (length_dll (playlist demo_session)))))"
    by (simp add: js_le_def)
  show ?thesis
    using o g ne1 ne2 r p c(4) by (simp add: audio_play_def audio_load_def)
qed

end
